theory Spec2Isabelle
  imports Complex_Main "HOL-Library.Word" "HOL-Library.Signed_Division"
begin

unbundle bit_operations_syntax

section \<open>Single-precision arithmetic\<close>

text \<open>
  The gain levels are C \<^verbatim>\<open>float\<close>s: IEEE 754 binary32 values, computed by the
  FPU with round-to-nearest, ties-to-even.  A finite \<^verbatim>\<open>float\<close> is modelled by the real
  number it denotes, and each operation by the exact operation followed by the rounding
  \<open>round32\<close> to the nearest representable value: a multiple of \<open>2 ^ (e - 23)\<close>,
  where \<open>e\<close> is the binary exponent of the exact result, kept between \<open>-126\<close> (below
  that the subnormal values share one spacing) and \<open>127\<close>.  The model is exact for
  results of magnitude below \<open>2 ^ 128 - 2 ^ 103\<close>, where C overflows to infinity;
  the values of this program stay far below that bound (the theorems about them carry
  the bounds they need).  Infinities, NaN and the sign of zero are not modelled: no
  operation of the program produces or distinguishes them on such values.
\<close>

type_synonym float = real

text \<open>A sample (\<^verbatim>\<open>short\<close>) is a 16-bit word.\<close>

type_synonym short = "16 word"

definition pow2 :: "int \<Rightarrow> real" where
  "pow2 e = (if 0 \<le> e then 2 ^ nat e else 1 / 2 ^ nat (- e))"

text \<open>
  The binary exponent of a positive number, by repeated halving (from 1 upwards, at
  most 127 times) or doubling (below 1, at most 126 times).
\<close>

primrec scale_down :: "nat \<Rightarrow> real \<Rightarrow> int" where
  "scale_down 0 x = 0"
| "scale_down (Suc n) x = (if 2 \<le> x then 1 + scale_down n (x / 2) else 0)"

primrec scale_up :: "nat \<Rightarrow> real \<Rightarrow> int" where
  "scale_up 0 x = 0"
| "scale_up (Suc n) x = (if x < 1 then scale_up n (2 * x) - 1 else 0)"

definition float_exponent :: "real \<Rightarrow> int" where
  "float_exponent x = (if 1 \<le> \<bar>x\<bar> then scale_down 127 \<bar>x\<bar> else scale_up 126 \<bar>x\<bar>)"

text \<open>Rounding to the nearest integer, a tie to the even one.\<close>

definition round_even :: "real \<Rightarrow> int" where
  "round_even x =
     (let f = \<lfloor>x\<rfloor>; d = x - of_int f
      in if d < 1 / 2 then f else if 1 / 2 < d then f + 1 else if even f then f else f + 1)"

definition round32 :: "real \<Rightarrow> float" where
  "round32 x = (let q = pow2 (float_exponent x - 23) in of_int (round_even (x / q)) * q)"

definition fadd :: "float \<Rightarrow> float \<Rightarrow> float" where
  "fadd a b = round32 (a + b)"

definition fmul :: "float \<Rightarrow> float \<Rightarrow> float" where
  "fmul a b = round32 (a * b)"

definition fdiv :: "float \<Rightarrow> float \<Rightarrow> float" where
  "fdiv a b = round32 (a / b)"

text \<open>
  The conversions: a \<^verbatim>\<open>short\<close> converts to \<^verbatim>\<open>float\<close> exactly, and
  \<^verbatim>\<open>static_cast<int>\<close> of a \<^verbatim>\<open>float\<close> drops the fraction (rounds towards zero).
\<close>

definition float_of_short :: "short \<Rightarrow> float" where
  "float_of_short x = of_int (sint x)"

definition int_of_float :: "float \<Rightarrow> int" where
  "int_of_float x = (if 0 \<le> x then \<lfloor>x\<rfloor> else \<lceil>x\<rceil>)"

text \<open>\<^verbatim>\<open>std::max(a, b)\<close> is \<^verbatim>\<open>(a < b) ? b : a\<close>.\<close>

definition std_max_float :: "float \<Rightarrow> float \<Rightarrow> float" where
  "std_max_float a b = (if a < b then b else a)"

definition std_max_short :: "short \<Rightarrow> short \<Rightarrow> short" where
  "std_max_short a b = (if a <s b then b else a)"

section \<open>The constants of the display\<close>

definition NUMPIXELS :: int where
  "NUMPIXELS = 60"

text \<open>The table \<^verbatim>\<open>frequency_bins_count\<close>, one row of the source after the other.\<close>

definition frequency_bins_count :: "int list" where
  "frequency_bins_count =
     [ 1,  1,  1,  1,  1,  1,  1,  1,  1,  1] @
     [ 1,  1,  1,  1,  1,  1,  1,  1,  1,  1] @
     [ 1,  1,  1,  1,  1,  1,  1,  1,  1,  1] @
     [ 1,  1,  1,  1,  1,  1,  1,  1,  1,  1] @
     [ 2,  2,  2,  2,  2,  2,  2,  2,  2,  3] @
     [25, 26, 27, 28, 29, 30, 32, 33, 34, 130]"

definition raw_min_value :: short where
  "raw_min_value = 6"

text \<open>The literals \<^verbatim>\<open>0.005f\<close>, \<^verbatim>\<open>0.997f\<close> and \<^verbatim>\<open>250.0f\<close>.\<close>

definition min_auto_gain :: float where
  "min_auto_gain = round32 (5 / 1000)"

definition decay_factor :: float where
  "decay_factor = round32 (997 / 1000)"

definition full_scale :: float where
  "full_scale = round32 250"

text \<open>
  Modelled from the spec: the NeoPixel library is not part of the sources.  The strip
  is the list of the colours last written to its elements; \<^verbatim>\<open>pixels.Color(r, g, b)\<close>
  takes three 8-bit components (an \<^verbatim>\<open>int\<close> argument is converted to \<^verbatim>\<open>uint8_t\<close>),
  and \<^verbatim>\<open>pixels.setPixelColor(i, c)\<close> writes element \<^verbatim>\<open>i\<close>.
\<close>

type_synonym colour = "8 word \<times> 8 word \<times> 8 word"

definition Color :: "int \<Rightarrow> int \<Rightarrow> int \<Rightarrow> colour" where
  "Color r g b = (word_of_int r, word_of_int g, word_of_int b)"

definition setPixelColor :: "colour list \<Rightarrow> int \<Rightarrow> colour \<Rightarrow> colour list" where
  "setPixelColor px i c = px[nat i := c]"

section \<open>The shared globals of the sketch\<close>

text \<open>
  Both sketches (\<^verbatim>\<open>60led_srl.ino\<close> and \<^verbatim>\<open>fft_test.ino\<close>) declare the same
  double buffer: two arrays of \<^verbatim>\<open>fft_size\<close> 16-bit samples, one fill count for each,
  and four pointers that select which array and which fill count the interrupt handler
  writes and the main loop reads.  The fill
  counts are C \<^verbatim>\<open>int\<close>s; they are modelled as integers, and every theorem that
  depends on their range says so (on the states the program reaches they stay between
  0 and \<^verbatim>\<open>fft_size\<close>, far from the 32-bit limits).  A pointer is the name of the global
  it points to.
\<close>

definition fft_size :: int where
  "fft_size = 1024"

datatype buffer = Buffer1 | Buffer2

record sketch =
  audio_buffer1 :: "short list"
  buffer1_size :: int
  audio_buffer2 :: "short list"
  buffer2_size :: int
  write_buffer :: buffer
  write_size :: buffer
  read_buffer :: buffer
  read_size :: buffer
  auto_gain_level :: "float list"
  loop_count :: "32 word"
  pixels :: "colour list"

text \<open>Reading and writing through a pointer to a fill count or to an array.\<close>

fun deref_size :: "buffer \<Rightarrow> sketch \<Rightarrow> int" where
  "deref_size Buffer1 s = buffer1_size s"
| "deref_size Buffer2 s = buffer2_size s"

fun store_size :: "buffer \<Rightarrow> int \<Rightarrow> sketch \<Rightarrow> sketch" where
  "store_size Buffer1 n s = s\<lparr>buffer1_size := n\<rparr>"
| "store_size Buffer2 n s = s\<lparr>buffer2_size := n\<rparr>"

fun deref_buffer :: "buffer \<Rightarrow> sketch \<Rightarrow> short list" where
  "deref_buffer Buffer1 s = audio_buffer1 s"
| "deref_buffer Buffer2 s = audio_buffer2 s"

fun store_buffer :: "buffer \<Rightarrow> short list \<Rightarrow> sketch \<Rightarrow> sketch" where
  "store_buffer Buffer1 b s = s\<lparr>audio_buffer1 := b\<rparr>"
| "store_buffer Buffer2 b s = s\<lparr>audio_buffer2 := b\<rparr>"

text \<open>
  The conditional expressions
  \<^verbatim>\<open>(write_size == &buffer1_size) ? &buffer2_size : &buffer1_size\<close> and
  \<^verbatim>\<open>(write_buffer == audio_buffer1) ? audio_buffer2 : audio_buffer1\<close>.
\<close>

definition other_buffer :: "buffer \<Rightarrow> buffer" where
  "other_buffer p = (if p = Buffer1 then Buffer2 else Buffer1)"

text \<open>
  The initialisers of the globals: both counts 0, all four pointers at buffer 1, and
  zero-initialised arrays.  \<^verbatim>\<open>setup\<close> then sets every gain level to
  \<^verbatim>\<open>min_auto_gain\<close>, before it registers the interrupt handler.
\<close>

definition globals :: sketch where
  "globals =
     \<lparr> audio_buffer1 = replicate (nat fft_size) 0, buffer1_size = 0,
       audio_buffer2 = replicate (nat fft_size) 0, buffer2_size = 0,
       write_buffer = Buffer1, write_size = Buffer1,
       read_buffer = Buffer1, read_size = Buffer1,
       auto_gain_level = replicate (nat NUMPIXELS) 0, loop_count = 0,
       pixels = replicate (nat NUMPIXELS) (0, 0, 0) \<rparr>"

definition setup_sketch :: "sketch \<Rightarrow> sketch" where
  "setup_sketch s = s\<lparr>auto_gain_level := map (\<lambda>v. min_auto_gain) (auto_gain_level s)\<rparr>"

definition initial_sketch :: sketch where
  "initial_sketch = setup_sketch globals"

section \<open>The interrupt handler \<^verbatim>\<open>onPDMdata\<close>\<close>

text \<open>
  Modelled from the spec: the PDM library is not part of the sources.  The peripheral
  is the list of samples it holds unread; \<^verbatim>\<open>PDM.available()\<close> is their size in bytes
  (two per sample), and \<^verbatim>\<open>PDM.read(dst, n)\<close> moves \<^verbatim>\<open>n\<close> bytes, that is
  \<^verbatim>\<open>n / 2\<close> samples, from the front of that list to \<^verbatim>\<open>dst\<close>.
\<close>

definition PDM_available :: "short list \<Rightarrow> int" where
  "PDM_available pdm = 2 * int (length pdm)"

definition PDM_read :: "short list \<Rightarrow> int \<Rightarrow> short list \<times> short list" where
  "PDM_read pdm n = (take (nat (n div 2)) pdm, drop (nat (n div 2)) pdm)"

text \<open>
  Storing the samples \<^verbatim>\<open>xs\<close> into an array from index \<^verbatim>\<open>off\<close> on
  (the destination \<^verbatim>\<open>&write_buffer[*write_size]\<close>).
\<close>

definition store_at :: "short list \<Rightarrow> nat \<Rightarrow> short list \<Rightarrow> short list" where
  "store_at buf off xs = take off buf @ xs @ drop (off + length xs) buf"

text \<open>
  The first half of the handler (the statements up to \<^verbatim>\<open>*write_size += samples_to_read\<close>):
  it returns the new globals, what is left in the peripheral, and \<^verbatim>\<open>samples_to_read\<close>.
\<close>

definition onPDMdata_read :: "short list \<Rightarrow> sketch \<Rightarrow> sketch \<times> short list \<times> int" where
  "onPDMdata_read pdm s =
     (let available_space_samples = fft_size - deref_size (write_size s) s;
          samples_available = drop_bit 1 (PDM_available pdm);
          samples_to_read = min available_space_samples samples_available;
          (got, pdm') = PDM_read pdm (samples_to_read * 2);
          s1 = store_buffer (write_buffer s)
                 (store_at (deref_buffer (write_buffer s) s)
                    (nat (deref_size (write_size s) s)) got) s;
          s2 = store_size (write_size s) (deref_size (write_size s) s1 + samples_to_read) s1
      in (s2, pdm', samples_to_read))"

text \<open>
  The second half: \<^verbatim>\<open>if (*write_size == fft_size) { ... }\<close>, which either discards the
  block just completed or moves the write pointers to the other block.
\<close>

definition onPDMdata_switch :: "sketch \<Rightarrow> sketch" where
  "onPDMdata_switch s =
     (if deref_size (write_size s) s = fft_size then
        (let maybe_next = other_buffer (write_size s) in
         if deref_size maybe_next s \<noteq> 0 then store_size (write_size s) 0 s
         else s\<lparr>write_size := maybe_next, write_buffer := other_buffer (write_buffer s)\<rparr>)
      else s)"

definition onPDMdata :: "short list \<Rightarrow> sketch \<Rightarrow> sketch \<times> short list" where
  "onPDMdata pdm s =
     (let (s2, pdm', samples_to_read) = onPDMdata_read pdm s
      in (onPDMdata_switch s2, pdm'))"

section \<open>The main loop \<^verbatim>\<open>loop\<close>\<close>

text \<open>
  \<^verbatim>\<open>RemoveDCBias\<close> (the same statements stand inline in \<^verbatim>\<open>fft_test.ino\<close>).  The
  accumulator \<^verbatim>\<open>avg\<close> is an \<^verbatim>\<open>int32_t\<close>: an integer wrapped to 32 bits after each
  addition.  \<^verbatim>\<open>avg /= fft_size\<close> is C's division, which truncates towards zero
  (\<open>sdiv\<close>).  \<^verbatim>\<open>data[i] -= avg\<close> subtracts as \<^verbatim>\<open>int\<close> and stores the low 16 bits.
\<close>

definition int32 :: "int \<Rightarrow> int" where
  "int32 k = signed_take_bit 31 k"

definition RemoveDCBias_sum :: "short list \<Rightarrow> int" where
  "RemoveDCBias_sum data =
     fold (\<lambda>i avg. int32 (avg + sint (data ! i))) [0..<nat fft_size] 0"

definition RemoveDCBias :: "short list \<Rightarrow> short list" where
  "RemoveDCBias data =
     (let avg = RemoveDCBias_sum data;
          avg = int32 (avg sdiv fft_size)
      in fold (\<lambda>i d. d[i := word_of_int (sint (d ! i) - avg)]) [0..<nat fft_size] data)"

text \<open>
  The inner loop over the bins of one pixel:
  \<^verbatim>\<open>for (int j = 0; j < frequency_bins_count[i]; j++, fft_offset++)\<close> with the body
  \<^verbatim>\<open>total += std::max<short>(0, read_buffer[fft_offset] - raw_min_value)\<close>.
  The difference is an \<^verbatim>\<open>int\<close>, converted to \<^verbatim>\<open>short\<close> for \<^verbatim>\<open>std::max<short>\<close>.
\<close>

definition bin_energy :: "short \<Rightarrow> float" where
  "bin_energy x = float_of_short (std_max_short 0 (word_of_int (sint x - sint raw_min_value)))"

function bins_loop :: "short list \<Rightarrow> int \<Rightarrow> int \<Rightarrow> int \<Rightarrow> float \<Rightarrow> float \<times> int" where
  "bins_loop buf count j fft_offset total' =
     (if j < count then
        bins_loop buf count (j + 1) (fft_offset + 1)
          (fadd total' (bin_energy (buf ! nat fft_offset)))
      else (total', fft_offset))"
  by pat_completeness auto
termination
  by (relation "measure (\<lambda>(buf, count, j, fft_offset, total'). nat (count - j))") auto

text \<open>The gain update of one pixel (the \<^verbatim>\<open>if (level > auto_gain_level[i])\<close> statement).\<close>

definition auto_gain_update :: "float \<Rightarrow> float \<Rightarrow> float" where
  "auto_gain_update level agl =
     (if level > agl then level else std_max_float min_auto_gain (fmul agl decay_factor))"

text \<open>
  The outer loop \<^verbatim>\<open>for (int i = 0; i < NUMPIXELS; i++)\<close>, from pixel \<^verbatim>\<open>i\<close> on.
  (\<^verbatim>\<open>pixel_values[i]\<close> is written and never read; \<^verbatim>\<open>bin_minimum\<close> is never used.)
\<close>

function pixels_loop :: "int \<Rightarrow> int \<Rightarrow> sketch \<Rightarrow> sketch" where
  "pixels_loop i fft_offset s =
     (if i < NUMPIXELS then
        (let (total', fft_offset') =
               bins_loop (deref_buffer (read_buffer s) s) (frequency_bins_count ! nat i)
                 0 fft_offset 0;
             level = total';
             s1 = s\<lparr>auto_gain_level := (auto_gain_level s)
                     [nat i := auto_gain_update level (auto_gain_level s ! nat i)]\<rparr>;
             gain_level = fdiv level (auto_gain_level s1 ! nat i);
             r = 0;
             g = int_of_float (fmul gain_level full_scale);
             b = 0;
             s2 = s1\<lparr>pixels := setPixelColor (pixels s1) i (Color r g b)\<rparr>
         in pixels_loop (i + 1) fft_offset' s2)
      else s)"
  by pat_completeness auto
termination
  by (relation "measure (\<lambda>(i, fft_offset, s). nat (NUMPIXELS - i))") auto

text \<open>
  The work on a full block, from \<^verbatim>\<open>loop_count++\<close> to \<^verbatim>\<open>pixels.show()\<close>.  The
  transform \<^verbatim>\<open>ZeroFFT\<close> belongs to a library outside the sources; it is a parameter,
  a function on the block it rewrites in place.
\<close>

definition process_block :: "(short list \<Rightarrow> short list) \<Rightarrow> sketch \<Rightarrow> sketch" where
  "process_block ZeroFFT s =
     (let s1 = s\<lparr>loop_count := loop_count s + 1\<rparr>;
          s2 = store_buffer (read_buffer s1) (RemoveDCBias (deref_buffer (read_buffer s1) s1)) s1;
          s3 = store_buffer (read_buffer s2) (ZeroFFT (deref_buffer (read_buffer s2) s2)) s2
      in pixels_loop 0 1 s3)"

text \<open>
  The interrupt can arrive between any two statements of \<^verbatim>\<open>loop\<close>.  The statements
  that touch what the handler also touches are taken one at a time: the test of
  \<^verbatim>\<open>*read_size\<close>, the work on the block, \<^verbatim>\<open>*read_size = 0\<close>, and the two pointer
  assignments.  (The work on the block reads and writes only the array \<^verbatim>\<open>read_buffer\<close>
  points to and data the handler never uses, so it is one step.)
\<close>

datatype loop_pc = At_test | At_process | At_mark_empty | At_next_size | At_next_buffer

fun loop_step :: "(short list \<Rightarrow> short list) \<Rightarrow> loop_pc \<times> sketch \<Rightarrow> loop_pc \<times> sketch" where
  "loop_step ZeroFFT (At_test, s) =
     (if deref_size (read_size s) s \<noteq> fft_size then (At_test, s) else (At_process, s))"
| "loop_step ZeroFFT (At_process, s) = (At_mark_empty, process_block ZeroFFT s)"
| "loop_step ZeroFFT (At_mark_empty, s) = (At_next_size, store_size (read_size s) 0 s)"
| "loop_step ZeroFFT (At_next_size, s) =
     (At_next_buffer, s\<lparr>read_size := other_buffer (read_size s)\<rparr>)"
| "loop_step ZeroFFT (At_next_buffer, s) =
     (At_test, s\<lparr>read_buffer := other_buffer (read_buffer s)\<rparr>)"

text \<open>One call of \<^verbatim>\<open>loop\<close> that no interrupt cuts.\<close>

definition loop :: "(short list \<Rightarrow> short list) \<Rightarrow> sketch \<Rightarrow> sketch" where
  "loop ZeroFFT s =
     (if deref_size (read_size s) s \<noteq> fft_size then s
      else
        (let s1 = process_block ZeroFFT s;
             s2 = store_size (read_size s1) 0 s1;
             s3 = s2\<lparr>read_size := other_buffer (read_size s2)\<rparr>
         in s3\<lparr>read_buffer := other_buffer (read_buffer s3)\<rparr>))"

section \<open>The program as a transition system\<close>

text \<open>
  The states the program reaches after \<^verbatim>\<open>setup\<close>: at any point the handler may run
  (with any samples unread in the peripheral), or the main loop may take its next step.
\<close>

inductive reachable :: "(short list \<Rightarrow> short list) \<Rightarrow> loop_pc \<times> sketch \<Rightarrow> bool"
  for ZeroFFT :: "short list \<Rightarrow> short list" where
  start: "reachable ZeroFFT (At_test, initial_sketch)"
| interrupt: "reachable ZeroFFT (pc, s) \<Longrightarrow> reachable ZeroFFT (pc, fst (onPDMdata pdm s))"
| main: "reachable ZeroFFT c \<Longrightarrow> reachable ZeroFFT (loop_step ZeroFFT c)"

text \<open>
  What the fill counts satisfy between two steps: the block the handler writes is not
  full, and the other block is empty or full.
\<close>

definition counts_ok :: "sketch \<Rightarrow> bool" where
  "counts_ok s \<longleftrightarrow>
     0 \<le> deref_size (write_size s) s \<and> deref_size (write_size s) s < fft_size \<and>
     (deref_size (other_buffer (write_size s)) s = 0 \<or>
      deref_size (other_buffer (write_size s)) s = fft_size)"

section \<open>The bins of a band\<close>

text \<open>
  The notions the statements about the aggregation use: where the bins of band
  \<open>i\<close> start when the bands take their bins one after the other from bin 1 on, the
  bins of the band, and their energy summed in that order.
\<close>

definition band_start :: "nat \<Rightarrow> int" where
  "band_start i = 1 + sum_list (take i frequency_bins_count)"

definition band_bins :: "short list \<Rightarrow> nat \<Rightarrow> short list" where
  "band_bins buf i = take (nat (frequency_bins_count ! i)) (drop (nat (band_start i)) buf)"

definition band_level :: "short list \<Rightarrow> nat \<Rightarrow> float" where
  "band_level buf i = foldl (\<lambda>t x. fadd t (bin_energy x)) 0 (band_bins buf i)"

text \<open>
  What the body of the pixel loop computes from the level of a band and its gain level
  before the frame: \<^verbatim>\<open>gain_level\<close> (the normalized output) and the green component.
\<close>

definition normalized :: "float \<Rightarrow> float \<Rightarrow> float" where
  "normalized level agl = fdiv level (auto_gain_update level agl)"

definition green :: "float \<Rightarrow> float \<Rightarrow> int" where
  "green level agl = int_of_float (fmul (normalized level agl) full_scale)"

text \<open>
  The bound on the normalized output: \<open>1 / 0.997\<close>, up to the relative error
  \<open>2 ^ -22\<close> that the rounding of \<^verbatim>\<open>0.997f\<close>, of the product and of the quotient
  can add.
\<close>

definition normalized_bound :: real where
  "normalized_bound = (1 + 1 / 2 ^ 22) / (997 / 1000)"

text \<open>The arithmetic mean of a block of samples.\<close>

definition block_mean :: "short list \<Rightarrow> real" where
  "block_mean data = real_of_int (sum_list (map sint data)) / real (length data)"

text \<open>
  No sample leaves the 16-bit range when \<^verbatim>\<open>RemoveDCBias\<close> subtracts the average it
  computed.
\<close>

definition bias_fits :: "short list \<Rightarrow> bool" where
  "bias_fits data =
     list_all (\<lambda>x. - 32768 \<le> sint x - int32 (RemoveDCBias_sum data sdiv fft_size) \<and>
                   sint x - int32 (RemoveDCBias_sum data sdiv fft_size) \<le> 32767) data"

section \<open>Runs of the program\<close>

text \<open>
  A run is a sequence of events: the handler is called, with some samples unread in
  the peripheral, or the main loop takes its next step.  The run records the blocks
  the main loop works on: the contents of the array \<^verbatim>\<open>read_buffer\<close> points to when
  the loop, having found it full, starts on it.
\<close>

datatype event = Interrupt "short list" | Loop_step

fun run :: "(short list \<Rightarrow> short list) \<Rightarrow> event list \<Rightarrow> loop_pc \<times> sketch \<Rightarrow> short list list \<Rightarrow>
    (loop_pc \<times> sketch) \<times> short list list" where
  "run ZeroFFT [] c obs = (c, obs)"
| "run ZeroFFT (Interrupt pdm # es) (pc, s) obs = run ZeroFFT es (pc, fst (onPDMdata pdm s)) obs"
| "run ZeroFFT (Loop_step # es) (pc, s) obs =
     run ZeroFFT es (loop_step ZeroFFT (pc, s))
       (if pc = At_process then obs @ [deref_buffer (read_buffer s) s] else obs)"

text \<open>The samples the peripheral delivers in a run, in order.\<close>

fun delivered :: "event list \<Rightarrow> short list" where
  "delivered [] = []"
| "delivered (Interrupt pdm # es) = pdm @ delivered es"
| "delivered (Loop_step # es) = delivered es"

text \<open>
  The peripheral never delivers more than a block before the main loop has drained the
  full one: at each call of the handler, the samples held in the two blocks (their fill
  counts; \<^verbatim>\<open>*read_size = 0\<close> is what drains a block) and the samples delivered make at
  most \<^verbatim>\<open>fft_size\<close>.
\<close>

fun within_capacity :: "(short list \<Rightarrow> short list) \<Rightarrow> event list \<Rightarrow> loop_pc \<times> sketch \<Rightarrow> bool" where
  "within_capacity ZeroFFT [] c = True"
| "within_capacity ZeroFFT (Interrupt pdm # es) (pc, s) =
     (buffer1_size s + buffer2_size s + int (length pdm) \<le> fft_size \<and>
      within_capacity ZeroFFT es (pc, fst (onPDMdata pdm s)))"
| "within_capacity ZeroFFT (Loop_step # es) c = within_capacity ZeroFFT es (loop_step ZeroFFT c)"

text \<open>
  The block the main loop starts on next (once \<^verbatim>\<open>*read_size = 0\<close> is due or done and
  \<^verbatim>\<open>read_size\<close> not yet moved, it is the other one), and the samples waiting in it.
\<close>

definition next_block :: "loop_pc \<Rightarrow> sketch \<Rightarrow> buffer" where
  "next_block pc s =
     (if pc = At_mark_empty \<or> pc = At_next_size then other_buffer (read_size s) else read_size s)"

definition waiting :: "loop_pc \<Rightarrow> sketch \<Rightarrow> short list" where
  "waiting pc s = take (nat (deref_size (next_block pc s) s)) (deref_buffer (next_block pc s) s)"

text \<open>
  How the pointers and the fill counts stand at each point of the main loop in a run
  within capacity: which block the handler writes, and which of the two is being
  filled (and full once the handler has moved on to the other).
\<close>

definition writing :: "buffer \<Rightarrow> sketch \<Rightarrow> bool" where
  "writing p s \<longleftrightarrow> write_size s = p \<and> write_buffer s = p"

definition filling :: "buffer \<Rightarrow> sketch \<Rightarrow> bool" where
  "filling p s \<longleftrightarrow>
     (writing p s \<and> 0 \<le> deref_size p s \<and> deref_size p s < fft_size) \<or>
     (writing (other_buffer p) s \<and> deref_size p s = fft_size)"

fun in_step :: "loop_pc \<Rightarrow> sketch \<Rightarrow> bool" where
  "in_step At_test s \<longleftrightarrow>
     read_buffer s = read_size s \<and> filling (read_size s) s \<and>
     deref_size (other_buffer (read_size s)) s = 0"
| "in_step At_process s \<longleftrightarrow>
     read_buffer s = read_size s \<and> writing (other_buffer (read_size s)) s \<and>
     deref_size (read_size s) s = fft_size \<and> deref_size (other_buffer (read_size s)) s = 0"
| "in_step At_mark_empty s \<longleftrightarrow>
     read_buffer s = read_size s \<and> writing (other_buffer (read_size s)) s \<and>
     deref_size (read_size s) s = fft_size \<and> deref_size (other_buffer (read_size s)) s = 0"
| "in_step At_next_size s \<longleftrightarrow>
     read_buffer s = read_size s \<and> filling (other_buffer (read_size s)) s \<and>
     deref_size (read_size s) s = 0"
| "in_step At_next_buffer s \<longleftrightarrow>
     read_buffer s = other_buffer (read_size s) \<and> filling (read_size s) s \<and>
     deref_size (other_buffer (read_size s)) s = 0"

definition blocks_sized :: "sketch \<Rightarrow> bool" where
  "blocks_sized s \<longleftrightarrow>
     length (audio_buffer1 s) = nat fft_size \<and> length (audio_buffer2 s) = nat fft_size"

text \<open>
  The gain level of one band after a sequence of frames with the given raw energies,
  and the range the gain levels stay in (no band level exceeds 130 bins of 32767).
\<close>

definition gain_after :: "float list \<Rightarrow> float \<Rightarrow> float" where
  "gain_after levels agl = foldl (\<lambda>g level. auto_gain_update level g) agl levels"

definition max_level :: real where
  "max_level = 130 * 32767"


section \<open>Basic facts about the pointers\<close>

lemma other_buffer_simps [simp]:
  "other_buffer Buffer1 = Buffer2" "other_buffer Buffer2 = Buffer1"
  by (simp_all add: other_buffer_def)

lemma other_buffer_neq [simp]: "other_buffer p \<noteq> p" "p \<noteq> other_buffer p"
  by (cases p; simp)+

lemma other_buffer_twice [simp]: "other_buffer (other_buffer p) = p"
  by (cases p) simp_all

lemma neq_other_buffer: "q \<noteq> p \<longleftrightarrow> q = other_buffer p"
  by (cases p; cases q) simp_all

lemma deref_store_size_same [simp]: "deref_size p (store_size p n s) = n"
  by (cases p) simp_all

lemma deref_store_size_other [simp]:
  "deref_size (other_buffer p) (store_size p n s) = deref_size (other_buffer p) s"
  "deref_size p (store_size (other_buffer p) n s) = deref_size p s"
  by (cases p; simp)+

lemma deref_size_store_buffer [simp]: "deref_size p (store_buffer q b s) = deref_size p s"
  by (cases p; cases q) simp_all

lemma deref_buffer_store_size [simp]: "deref_buffer p (store_size q n s) = deref_buffer p s"
  by (cases p; cases q) simp_all

lemma deref_store_buffer_same [simp]: "deref_buffer p (store_buffer p b s) = b"
  by (cases p) simp_all

lemma deref_store_buffer_other [simp]:
  "deref_buffer (other_buffer p) (store_buffer p b s) = deref_buffer (other_buffer p) s"
  "deref_buffer p (store_buffer (other_buffer p) b s) = deref_buffer p s"
  by (cases p; simp)+

lemma pointers_store_size [simp]:
  "write_size (store_size p n s) = write_size s"
  "write_buffer (store_size p n s) = write_buffer s"
  "read_size (store_size p n s) = read_size s"
  "read_buffer (store_size p n s) = read_buffer s"
  by (cases p; simp)+

lemma pointers_store_buffer [simp]:
  "write_size (store_buffer p b s) = write_size s"
  "write_buffer (store_buffer p b s) = write_buffer s"
  "read_size (store_buffer p b s) = read_size s"
  "read_buffer (store_buffer p b s) = read_buffer s"
  by (cases p; simp)+

lemma fields_store_buffer [simp]:
  "buffer1_size (store_buffer p b s) = buffer1_size s"
  "buffer2_size (store_buffer p b s) = buffer2_size s"
  "auto_gain_level (store_buffer p b s) = auto_gain_level s"
  "loop_count (store_buffer p b s) = loop_count s"
  "pixels (store_buffer p b s) = pixels s"
  by (cases p; simp)+

lemma fields_store_size [simp]:
  "audio_buffer1 (store_size p n s) = audio_buffer1 s"
  "audio_buffer2 (store_size p n s) = audio_buffer2 s"
  "auto_gain_level (store_size p n s) = auto_gain_level s"
  "loop_count (store_size p n s) = loop_count s"
  "pixels (store_size p n s) = pixels s"
  by (cases p; simp)+

lemma deref_size_field_update [simp]:
  "deref_size p (s\<lparr>auto_gain_level := a\<rparr>) = deref_size p s"
  "deref_size p (s\<lparr>loop_count := c\<rparr>) = deref_size p s"
  "deref_size p (s\<lparr>pixels := x\<rparr>) = deref_size p s"
  by (cases p; simp)+

lemma deref_buffer_field_update [simp]:
  "deref_buffer p (s\<lparr>auto_gain_level := a\<rparr>) = deref_buffer p s"
  "deref_buffer p (s\<lparr>loop_count := c\<rparr>) = deref_buffer p s"
  "deref_buffer p (s\<lparr>pixels := x\<rparr>) = deref_buffer p s"
  by (cases p; simp)+

lemma deref_size_pointer_update [simp]:
  "deref_size p (s\<lparr>write_size := q\<rparr>) = deref_size p s"
  "deref_size p (s\<lparr>write_buffer := q\<rparr>) = deref_size p s"
  "deref_size p (s\<lparr>read_size := q\<rparr>) = deref_size p s"
  "deref_size p (s\<lparr>read_buffer := q\<rparr>) = deref_size p s"
  by (cases p; simp)+

lemma deref_buffer_pointer_update [simp]:
  "deref_buffer p (s\<lparr>write_size := q\<rparr>) = deref_buffer p s"
  "deref_buffer p (s\<lparr>write_buffer := q\<rparr>) = deref_buffer p s"
  "deref_buffer p (s\<lparr>read_size := q\<rparr>) = deref_buffer p s"
  "deref_buffer p (s\<lparr>read_buffer := q\<rparr>) = deref_buffer p s"
  by (cases p; simp)+

lemma samples_available_eq [simp]:
  "drop_bit 1 (PDM_available pdm) = int (length pdm)"
  "drop_bit (Suc 0) (PDM_available pdm) = int (length pdm)"
  by (simp_all add: PDM_available_def drop_bit_eq_div)

text \<open>The handler's first half, with its local variables computed.\<close>

lemma onPDMdata_read_eq:
  "onPDMdata_read pdm s =
     (let w = deref_size (write_size s) s;
          n = min (fft_size - w) (int (length pdm))
      in (store_size (write_size s) (w + n)
            (store_buffer (write_buffer s)
               (store_at (deref_buffer (write_buffer s) s) (nat w) (take (nat n) pdm)) s),
          drop (nat n) pdm, n))"
  by (simp add: onPDMdata_read_def PDM_read_def Let_def)

declare bins_loop.simps [simp del] pixels_loop.simps [simp del]

lemma onPDMdata_eq:
  "onPDMdata pdm s =
     (onPDMdata_switch (fst (onPDMdata_read pdm s)), fst (snd (onPDMdata_read pdm s)))"
  by (simp add: onPDMdata_def split: prod.splits)

text \<open>The five steps of the main loop make one call of \<^verbatim>\<open>loop\<close>.\<close>

lemma loop_step_by_step:
  "deref_size (read_size s) s \<noteq> fft_size \<Longrightarrow>
     loop_step ZeroFFT (At_test, s) = (At_test, loop ZeroFFT s)"
  "deref_size (read_size s) s = fft_size \<Longrightarrow>
     (loop_step ZeroFFT ^^ 5) (At_test, s) = (At_test, loop ZeroFFT s)"
  by (simp_all add: loop_def Let_def eval_nat_numeral)

section \<open>The handler completes a block\<close>

text \<open>
  Claim C1.  Whenever a call of the handler brings the fill count of the block it
  writes to \<^verbatim>\<open>fft_size\<close>: if the fill count of the other block is not 0, the handler
  resets the count of the block it just completed to 0 and keeps writing the same block
  (neither write pointer moves, and the other block's count is untouched); if it is 0,
  both write pointers move to the other block, and the completed block stays full.
\<close>

theorem onPDMdata_completed_block:
  assumes "deref_size (write_size s) (fst (onPDMdata_read pdm s)) = fft_size"
  shows "let s' = fst (onPDMdata pdm s); w = write_size s; other = other_buffer w in
         if deref_size other s \<noteq> 0
         then deref_size w s' = 0 \<and> write_size s' = w \<and> write_buffer s' = write_buffer s \<and>
              deref_size other s' = deref_size other s
         else write_size s' = other \<and> write_buffer s' = other_buffer (write_buffer s) \<and>
              deref_size w s' = fft_size \<and> deref_size other s' = 0"
  using assms
  by (simp add: onPDMdata_eq onPDMdata_read_eq onPDMdata_switch_def Let_def)

theorem onPDMdata_completed_block_witness:
  "(let s = initial_sketch\<lparr>buffer1_size := 1020, buffer2_size := 1024\<rparr>;
        pdm = [1, 2, 3, 4, 5];
        s' = fst (onPDMdata pdm s)
    in deref_size (write_size s) (fst (onPDMdata_read pdm s)) = fft_size \<and>
       buffer1_size s' = 0 \<and> buffer2_size s' = 1024 \<and>
       write_size s' = Buffer1 \<and> write_buffer s' = Buffer1) \<and>
   (let s = initial_sketch\<lparr>buffer1_size := 1020\<rparr>;
        pdm = [1, 2, 3, 4, 5];
        s' = fst (onPDMdata pdm s)
    in deref_size (write_size s) (fst (onPDMdata_read pdm s)) = fft_size \<and>
       buffer1_size s' = 1024 \<and> buffer2_size s' = 0 \<and>
       write_size s' = Buffer2 \<and> write_buffer s' = Buffer2)"
proof -
  let ?s = "initial_sketch\<lparr>buffer1_size := 1020, buffer2_size := 1024\<rparr>"
  let ?t = "initial_sketch\<lparr>buffer1_size := 1020\<rparr>"
  let ?pdm = "[1, 2, 3, 4, 5] :: short list"
  have hs: "deref_size (write_size ?s) (fst (onPDMdata_read ?pdm ?s)) = fft_size"
    by (simp add: onPDMdata_read_eq initial_sketch_def setup_sketch_def globals_def fft_size_def)
  have ht: "deref_size (write_size ?t) (fst (onPDMdata_read ?pdm ?t)) = fft_size"
    by (simp add: onPDMdata_read_eq initial_sketch_def setup_sketch_def globals_def fft_size_def)
  show ?thesis
    using onPDMdata_completed_block [OF hs] onPDMdata_completed_block [OF ht] hs ht
    by (simp add: Let_def initial_sketch_def setup_sketch_def globals_def fft_size_def)
qed

section \<open>What one call of the handler reads\<close>

lemma store_at_parts:
  assumes "off + length xs \<le> length buf"
  shows "length (store_at buf off xs) = length buf"
    and "take off (store_at buf off xs) = take off buf"
    and "take (length xs) (drop off (store_at buf off xs)) = xs"
    and "drop (off + length xs) (store_at buf off xs) = drop (off + length xs) buf"
  using assms by (simp_all add: store_at_def)

text \<open>
  Claim C9.  In the statements before its test for a completed block (the first half
  of the handler), with \<open>w\<close> the fill count of the write block (between 0 and
  \<^verbatim>\<open>fft_size\<close>) and \<open>a\<close> the samples available, the handler takes exactly
  \<open>min (fft_size - w) a\<close> samples from the front of the peripheral, stores them in
  the write block from index \<open>w\<close> on (the rest of the block is unchanged), and adds
  that number to the fill count, which stays between 0 and \<^verbatim>\<open>fft_size\<close>.
\<close>

theorem onPDMdata_read_amount:
  assumes "0 \<le> deref_size (write_size s) s" and "deref_size (write_size s) s \<le> fft_size"
    and "length (deref_buffer (write_buffer s) s) = nat fft_size"
  shows "let w = deref_size (write_size s) s;
             a = drop_bit 1 (PDM_available pdm);
             n = min (fft_size - w) a;
             (s', pdm', samples_to_read) = onPDMdata_read pdm s;
             buf = deref_buffer (write_buffer s) s;
             buf' = deref_buffer (write_buffer s) s'
         in samples_to_read = n \<and> 0 \<le> n \<and>
            pdm' = drop (nat n) pdm \<and>
            length buf' = length buf \<and>
            take (nat w) buf' = take (nat w) buf \<and>
            take (nat n) (drop (nat w) buf') = take (nat n) pdm \<and>
            drop (nat (w + n)) buf' = drop (nat (w + n)) buf \<and>
            deref_size (write_size s) s' = w + n \<and> 0 \<le> w + n \<and> w + n \<le> fft_size"
proof -
  define w where "w = deref_size (write_size s) s"
  define n where "n = min (fft_size - w) (int (length pdm))"
  define xs where "xs = take (nat n) pdm"
  define buf where "buf = deref_buffer (write_buffer s) s"
  have n0: "0 \<le> n" and nle: "w + n \<le> fft_size" and nlen: "nat n \<le> length pdm"
    using assms by (auto simp: n_def w_def)
  have len: "length xs = nat n"
    using nlen by (simp add: xs_def)
  have fits: "nat w + length xs \<le> length buf"
    using assms n0 nle by (simp add: len buf_def w_def)
  have xs: "xs = take (length xs) pdm"
    unfolding len by (rule xs_def)
  have wn: "nat (w + n) = nat w + length xs"
    using assms n0 by (simp add: len w_def nat_add_distrib)
  have eq: "onPDMdata_read pdm s =
      (store_size (write_size s) (w + n)
         (store_buffer (write_buffer s) (store_at buf (nat w) xs) s), drop (nat n) pdm, n)"
    by (simp add: onPDMdata_read_eq Let_def w_def n_def xs_def buf_def)
  show ?thesis
    unfolding Let_def eq w_def [symmetric] samples_available_eq n_def [symmetric]
      buf_def [symmetric] prod.case
    using store_at_parts [OF fits] n0 nle assms(1) xs
    by (simp add: wn len [symmetric] w_def [symmetric])
qed

theorem onPDMdata_read_amount_witness:
  "(let s = initial_sketch\<lparr>buffer1_size := 1020\<rparr>;
        pdm = [1, 2, 3, 4, 5, 6];
        (s', pdm', samples_to_read) = onPDMdata_read pdm s
    in 0 \<le> deref_size (write_size s) s \<and> deref_size (write_size s) s \<le> fft_size \<and>
       length (deref_buffer (write_buffer s) s) = nat fft_size \<and>
       drop_bit 1 (PDM_available pdm) = 6 \<and>
       samples_to_read = 4 \<and> pdm' = [5, 6] \<and>
       take 4 (drop 1020 (audio_buffer1 s')) = [1, 2, 3, 4] \<and>
       take 1020 (audio_buffer1 s') = take 1020 (audio_buffer1 s) \<and>
       buffer1_size s' = 1024)"
proof -
  let ?s = "initial_sketch\<lparr>buffer1_size := 1020\<rparr>"
  let ?pdm = "[1, 2, 3, 4, 5, 6] :: short list"
  have h1: "0 \<le> deref_size (write_size ?s) ?s"
    by (simp add: initial_sketch_def setup_sketch_def globals_def)
  have h2: "deref_size (write_size ?s) ?s \<le> fft_size"
    by (simp add: initial_sketch_def setup_sketch_def globals_def fft_size_def)
  have h3: "length (deref_buffer (write_buffer ?s) ?s) = nat fft_size"
    by (simp add: initial_sketch_def setup_sketch_def globals_def)
  have w: "deref_size (write_size ?s) ?s = 1020" "write_buffer ?s = Buffer1" "write_size ?s = Buffer1"
    by (simp_all add: initial_sketch_def setup_sketch_def globals_def)
  obtain s' pdm' k where r: "onPDMdata_read ?pdm ?s = (s', pdm', k)"
    by (cases "onPDMdata_read ?pdm ?s") auto
  show ?thesis
    using onPDMdata_read_amount [OF h1 h2 h3, of ?pdm] h1 h2 h3
    unfolding Let_def r w prod.case samples_available_eq
    by (simp add: fft_size_def)
qed

section \<open>What the pixel loop leaves unchanged\<close>

lemma bins_loop_simps_if:
  "j < count' \<Longrightarrow> bins_loop buf count' j off t =
     bins_loop buf count' (j + 1) (off + 1) (fadd t (bin_energy (buf ! nat off)))"
  "\<not> j < count' \<Longrightarrow> bins_loop buf count' j off t = (t, off)"
  by (simp_all add: bins_loop.simps [of buf count' j off t])

lemma pixels_loop_frame:
  "buffer1_size (pixels_loop i off s) = buffer1_size s \<and>
   buffer2_size (pixels_loop i off s) = buffer2_size s \<and>
   audio_buffer1 (pixels_loop i off s) = audio_buffer1 s \<and>
   audio_buffer2 (pixels_loop i off s) = audio_buffer2 s \<and>
   write_size (pixels_loop i off s) = write_size s \<and>
   write_buffer (pixels_loop i off s) = write_buffer s \<and>
   read_size (pixels_loop i off s) = read_size s \<and>
   read_buffer (pixels_loop i off s) = read_buffer s \<and>
   loop_count (pixels_loop i off s) = loop_count s"
proof (induction i off s rule: pixels_loop.induct)
  case (1 i off s)
  show ?case
  proof (cases "i < NUMPIXELS")
    case True
    then show ?thesis
      using "1.IH" [OF True refl]
      by (subst (1 2 3 4 5 6 7 8 9) pixels_loop.simps) (simp add: Let_def split: prod.splits)
  next
    case False
    then show ?thesis
      by (subst (1 2 3 4 5 6 7 8 9) pixels_loop.simps) simp
  qed
qed

section \<open>The two blocks are never both full\<close>

lemma counts_ok_initial: "counts_ok initial_sketch"
  by (simp add: counts_ok_def initial_sketch_def setup_sketch_def globals_def fft_size_def)

lemma counts_ok_onPDMdata:
  assumes "counts_ok s"
  shows "counts_ok (fst (onPDMdata pdm s))"
proof -
  define w where "w = deref_size (write_size s) s"
  define n where "n = min (fft_size - w) (int (length pdm))"
  have n: "0 \<le> n" "w + n \<le> fft_size" "0 \<le> w"
    using assms by (auto simp: counts_ok_def w_def n_def)
  have other: "deref_size (other_buffer (write_size s)) s = 0 \<or>
      deref_size (other_buffer (write_size s)) s = fft_size"
    using assms by (simp add: counts_ok_def)
  have "fft_size \<noteq> 0" by (simp add: fft_size_def)
  then show ?thesis
    using n other
    by (auto simp: onPDMdata_eq onPDMdata_read_eq onPDMdata_switch_def Let_def counts_ok_def
        w_def [symmetric] n_def [symmetric])
qed

lemma process_block_frame:
  "buffer1_size (process_block Z s) = buffer1_size s"
  "buffer2_size (process_block Z s) = buffer2_size s"
  "write_size (process_block Z s) = write_size s"
  "write_buffer (process_block Z s) = write_buffer s"
  "read_size (process_block Z s) = read_size s"
  "read_buffer (process_block Z s) = read_buffer s"
  by (simp_all add: process_block_def Let_def pixels_loop_frame)

lemma deref_size_process_block [simp]:
  "deref_size p (process_block Z s) = deref_size p s"
  by (cases p) (simp_all add: process_block_frame)

lemma counts_ok_store_zero:
  assumes "counts_ok s"
  shows "counts_ok (store_size p 0 s)"
proof (cases "p = write_size s")
  case True
  then show ?thesis
    using assms by (simp add: counts_ok_def fft_size_def)
next
  case False
  then have "p = other_buffer (write_size s)"
    by (simp add: neq_other_buffer)
  then show ?thesis
    using assms by (simp add: counts_ok_def)
qed

lemma counts_ok_loop_step:
  assumes "counts_ok s"
  shows "counts_ok (snd (loop_step Z (pc, s)))"
proof (cases pc)
  case At_test
  then show ?thesis using assms by simp
next
  case At_process
  then show ?thesis
    using assms by (simp add: counts_ok_def process_block_frame)
next
  case At_mark_empty
  then show ?thesis using assms by (simp add: counts_ok_store_zero)
next
  case At_next_size
  then show ?thesis using assms by (simp add: counts_ok_def)
next
  case At_next_buffer
  then show ?thesis using assms by (simp add: counts_ok_def)
qed

lemma reachable_counts_ok:
  assumes "reachable Z c"
  shows "counts_ok (snd c)"
  using assms
proof (induction rule: reachable.induct)
  case start
  show ?case by (simp add: counts_ok_initial)
next
  case (interrupt pc s pdm)
  then show ?case by (simp add: counts_ok_onPDMdata)
next
  case (main c)
  then show ?case
    using counts_ok_loop_step [of "snd c" Z "fst c"] by simp
qed

lemma counts_ok_not_both_full:
  assumes "counts_ok s"
  shows "\<not> (buffer1_size s = fft_size \<and> buffer2_size s = fft_size)"
  using assms by (cases "write_size s") (auto simp: counts_ok_def)

text \<open>
  Claim C2.  In every state the program reaches from its initial state, by calls of
  the handler and steps of the main loop in any order, the two fill counts are not both
  \<^verbatim>\<open>fft_size\<close>.
\<close>

theorem never_both_blocks_full:
  assumes "reachable ZeroFFT (pc, s)"
  shows "\<not> (buffer1_size s = fft_size \<and> buffer2_size s = fft_size)"
  using reachable_counts_ok [OF assms] counts_ok_not_both_full by simp

lemma onPDMdata_full_block:
  "fst (onPDMdata (replicate 1024 x) initial_sketch) =
     initial_sketch\<lparr>audio_buffer1 := replicate 1024 x, buffer1_size := 1024,
        write_size := Buffer2, write_buffer := Buffer2\<rparr>"
  by (simp add: onPDMdata_eq onPDMdata_read_eq onPDMdata_switch_def Let_def store_at_def
      initial_sketch_def setup_sketch_def globals_def fft_size_def)

theorem never_both_blocks_full_witness:
  "reachable (\<lambda>b. b) (At_test, fst (onPDMdata (replicate 1024 7) initial_sketch)) \<and>
   buffer1_size (fst (onPDMdata (replicate 1024 7) initial_sketch)) = fft_size \<and>
   \<not> (buffer1_size (fst (onPDMdata (replicate 1024 7) initial_sketch)) = fft_size \<and>
      buffer2_size (fst (onPDMdata (replicate 1024 7) initial_sketch)) = fft_size)"
proof -
  have r: "reachable (\<lambda>b. b) (At_test, fst (onPDMdata (replicate 1024 7) initial_sketch))"
    by (rule reachable.interrupt) (rule reachable.start)
  show ?thesis
    using r never_both_blocks_full [OF r]
    by (simp add: onPDMdata_full_block fft_size_def)
qed

section \<open>The pixel loop, band by band\<close>

lemma bins_loop_slice:
  assumes "0 \<le> off" and "nat off + nat (c - j) \<le> length buf"
  shows "bins_loop buf c j off t =
     (foldl (\<lambda>t x. fadd t (bin_energy x)) t (take (nat (c - j)) (drop (nat off) buf)),
      off + int (nat (c - j)))"
  using assms
proof (induction "nat (c - j)" arbitrary: j off t)
  case 0
  then show ?case by (simp add: bins_loop_simps_if)
next
  case (Suc n)
  then have lt: "j < c" and n: "n = nat (c - (j + 1))" by auto
  have off: "nat off < length buf" using Suc.prems Suc.hyps(2) by simp
  have step: "take (Suc n) (drop (nat off) buf) = buf ! nat off # take n (drop (Suc (nat off)) buf)"
    using off by (simp add: take_Suc_conv_app_nth Cons_nth_drop_Suc [symmetric])
  have nat1: "nat (off + 1) = Suc (nat off)" using Suc.prems(1) by simp
  have IH: "bins_loop buf c (j + 1) (off + 1) (fadd t (bin_energy (buf ! nat off))) =
     (foldl (\<lambda>t x. fadd t (bin_energy x)) (fadd t (bin_energy (buf ! nat off)))
        (take (nat (c - (j + 1))) (drop (nat (off + 1)) buf)),
      off + 1 + int (nat (c - (j + 1))))"
    using Suc.prems Suc.hyps(2) by (intro Suc.hyps(1) [OF n]) auto
  show ?case
    using lt by (simp add: bins_loop_simps_if IH Suc.hyps(2) [symmetric] n [symmetric] step nat1)
qed

lemma length_frequency_bins_count: "length frequency_bins_count = 60"
  by (simp add: frequency_bins_count_def)

lemma sum_frequency_bins_count: "sum_list frequency_bins_count = 455"
  by (simp add: frequency_bins_count_def)

lemma frequency_bins_count_nonneg: "x \<in> set frequency_bins_count \<Longrightarrow> 0 \<le> x"
  by (auto simp: frequency_bins_count_def)

lemma band_start_0: "band_start 0 = 1"
  by (simp add: band_start_def)

lemma band_start_Suc:
  "i < 60 \<Longrightarrow> band_start (Suc i) = band_start i + frequency_bins_count ! i"
  by (simp add: band_start_def take_Suc_conv_app_nth length_frequency_bins_count)

lemma band_start_nonneg: "0 \<le> band_start i"
proof -
  have "0 \<le> sum_list (take i frequency_bins_count)"
    by (rule sum_list_nonneg) (auto dest: in_set_takeD frequency_bins_count_nonneg)
  then show ?thesis by (simp add: band_start_def)
qed

lemma band_start_le: "band_start i \<le> 456"
proof -
  have "sum_list (take i frequency_bins_count) + sum_list (drop i frequency_bins_count) = 455"
    using sum_frequency_bins_count
    by (metis append_take_drop_id sum_list_append)
  moreover have "0 \<le> sum_list (drop i frequency_bins_count)"
    by (rule sum_list_nonneg) (auto dest: in_set_dropD frequency_bins_count_nonneg)
  ultimately show ?thesis by (simp add: band_start_def)
qed

lemma band_start_60: "band_start 60 = 456"
  by (simp add: band_start_def frequency_bins_count_def)

lemma deref_read_buffer_update [simp]:
  "deref_buffer p (s\<lparr>auto_gain_level := a, pixels := x\<rparr>) = deref_buffer p s"
  by (cases p) simp_all

lemma take_Suc_update: "i < length xs \<Longrightarrow> take (Suc i) (xs[i := x]) = take i xs @ [x]"
  by (simp add: take_Suc_conv_app_nth)

lemma pixels_loop_from:
  assumes "456 \<le> length (deref_buffer (read_buffer s) s)"
    and "length (auto_gain_level s) = 60" and "length (pixels s) = 60" and "i \<le> 60"
  shows "pixels_loop (int i) (band_start i) s =
     s\<lparr>auto_gain_level := take i (auto_gain_level s) @
          map (\<lambda>k. auto_gain_update (band_level (deref_buffer (read_buffer s) s) k)
                 (auto_gain_level s ! k)) [i..<60],
       pixels := take i (pixels s) @
          map (\<lambda>k. Color 0 (green (band_level (deref_buffer (read_buffer s) s) k)
                 (auto_gain_level s ! k)) 0) [i..<60]\<rparr>"
  using assms
proof (induction "60 - i" arbitrary: i s)
  case 0
  then have i: "i = 60" by simp
  show ?case
    using "0.prems" by (subst pixels_loop.simps) (simp add: i NUMPIXELS_def)
next
  case (Suc n)
  then have i: "i < 60" and n: "n = 60 - Suc i" by auto
  define buf where "buf = deref_buffer (read_buffer s) s"
  define agl where "agl = auto_gain_level s"
  define px where "px = pixels s"
  define c where "c = frequency_bins_count ! i"
  have c0: "0 \<le> c"
    using i by (auto simp: c_def length_frequency_bins_count intro: frequency_bins_count_nonneg)
  have fits: "nat (band_start i) + nat (c - 0) \<le> length buf"
  proof -
    have "band_start i + c \<le> 456"
      using band_start_le [of "Suc i"] i by (simp add: band_start_Suc c_def)
    then show ?thesis
      using band_start_nonneg [of i] c0 Suc.prems(1) by (simp add: buf_def)
  qed
  have bins: "bins_loop buf c 0 (band_start i) 0 = (band_level buf i, band_start (Suc i))"
    using bins_loop_slice [OF band_start_nonneg fits, of 0] c0 i
    by (simp add: band_level_def band_bins_def c_def band_start_Suc)
  define lv where "lv = band_level buf i"
  define s2 where "s2 = s\<lparr>auto_gain_level := agl[i := auto_gain_update lv (agl ! i)],
      pixels := px[i := Color 0 (green lv (agl ! i)) 0]\<rparr>"
  have unfold: "pixels_loop (int i) (band_start i) s = pixels_loop (int (Suc i)) (band_start (Suc i)) s2"
    using i Suc.prems(2)
    by (subst pixels_loop.simps)
      (simp add: NUMPIXELS_def buf_def [symmetric] c_def [symmetric] bins Let_def s2_def
        lv_def agl_def px_def green_def normalized_def setPixelColor_def add.commute)
  have s2buf: "deref_buffer (read_buffer s2) s2 = buf"
    by (simp add: s2_def buf_def)
  have IH: "pixels_loop (int (Suc i)) (band_start (Suc i)) s2 =
     s2\<lparr>auto_gain_level := take (Suc i) (auto_gain_level s2) @
          map (\<lambda>k. auto_gain_update (band_level buf k) (auto_gain_level s2 ! k)) [Suc i..<60],
       pixels := take (Suc i) (pixels s2) @
          map (\<lambda>k. Color 0 (green (band_level buf k) (auto_gain_level s2 ! k)) 0) [Suc i..<60]\<rparr>"
    using Suc.hyps(1) [OF n, of s2] Suc.prems i unfolding s2buf
    by (simp add: s2_def agl_def px_def buf_def)
  have later: "k \<in> set [Suc i..<60] \<Longrightarrow> auto_gain_level s2 ! k = agl ! k" for k
    by (simp add: s2_def)
  have upt: "[i..<60] = i # [Suc i..<60]"
    using i by (simp add: upt_conv_Cons)
  have m1: "map (\<lambda>k. auto_gain_update (band_level buf k) (auto_gain_level s2 ! k)) [Suc i..<60] =
      map (\<lambda>k. auto_gain_update (band_level buf k) (agl ! k)) [Suc i..<60]"
    by (rule map_cong [OF refl]) (simp add: later)
  have m2: "map (\<lambda>k. Color 0 (green (band_level buf k) (auto_gain_level s2 ! k)) 0) [Suc i..<60] =
      map (\<lambda>k. Color 0 (green (band_level buf k) (agl ! k)) 0) [Suc i..<60]"
    by (rule map_cong [OF refl]) (simp add: later)
  have t1: "take (Suc i) (auto_gain_level s2) = take i agl @ [auto_gain_update lv (agl ! i)]"
    using i Suc.prems(2) by (simp add: s2_def take_Suc_update agl_def)
  have t2: "take (Suc i) (pixels s2) = take i px @ [Color 0 (green lv (agl ! i)) 0]"
    using i Suc.prems(3) by (simp add: s2_def take_Suc_update px_def)
  show ?case
    unfolding unfold IH m1 m2 t1 t2 buf_def [symmetric] agl_def [symmetric] px_def [symmetric]
    by (simp add: upt lv_def s2_def)
qed

section \<open>Which bins a band sums\<close>

lemma pixels_loop_eq:
  assumes "456 \<le> length (deref_buffer (read_buffer s) s)"
    and "length (auto_gain_level s) = 60" and "length (pixels s) = 60"
  shows "pixels_loop 0 1 s =
     s\<lparr>auto_gain_level :=
          map (\<lambda>k. auto_gain_update (band_level (deref_buffer (read_buffer s) s) k)
                 (auto_gain_level s ! k)) [0..<60],
       pixels :=
          map (\<lambda>k. Color 0 (green (band_level (deref_buffer (read_buffer s) s) k)
                 (auto_gain_level s ! k)) 0) [0..<60]\<rparr>"
  using pixels_loop_from [OF assms, of 0] by (simp add: band_start_0)

lemma band_bins_concat:
  assumes "i \<le> 60"
  shows "concat (map (band_bins buf) [0..<i]) = take (nat (band_start i - 1)) (drop 1 buf)"
  using assms
proof (induction i)
  case 0
  then show ?case by (simp add: band_start_0)
next
  case (Suc i)
  then have i: "i < 60" by simp
  define c where "c = frequency_bins_count ! i"
  have c0: "0 \<le> c"
    using i by (auto simp: c_def length_frequency_bins_count intro: frequency_bins_count_nonneg)
  have b1: "1 \<le> band_start i"
  proof -
    have "0 \<le> sum_list (take i frequency_bins_count)"
      by (rule sum_list_nonneg) (auto dest: in_set_takeD frequency_bins_count_nonneg)
    then show ?thesis by (simp add: band_start_def)
  qed
  have n: "nat (band_start (Suc i) - 1) = nat (band_start i - 1) + nat c"
    using b1 c0 i by (simp add: band_start_Suc c_def nat_add_distrib)
  have d: "nat (band_start i) = nat (band_start i - 1) + 1"
    using b1 by simp
  have "take (nat (band_start i - 1) + nat c) (drop 1 buf) =
      take (nat (band_start i - 1)) (drop 1 buf) @ take (nat c) (drop (nat (band_start i)) buf)"
    unfolding d by (simp add: take_add)
  then show ?case
    using Suc.IH i by (simp add: n band_bins_def c_def)
qed

text \<open>The bins the pixel loop sums when it starts at bin 1.\<close>

lemma pixels_loop_slices:
  assumes "length (deref_buffer (read_buffer s) s) = nat fft_size"
    and "length (auto_gain_level s) = nat NUMPIXELS" and "length (pixels s) = nat NUMPIXELS"
  shows "sum_list frequency_bins_count = 455 \<and>
     concat (map (band_bins (deref_buffer (read_buffer s) s)) [0..<nat NUMPIXELS]) =
       take 455 (drop 1 (deref_buffer (read_buffer s) s)) \<and>
     map (\<lambda>i. length (band_bins (deref_buffer (read_buffer s) s) i)) [0..<nat NUMPIXELS] =
       map nat frequency_bins_count \<and>
     auto_gain_level (pixels_loop 0 1 s) =
       map (\<lambda>i. auto_gain_update (band_level (deref_buffer (read_buffer s) s) i)
              (auto_gain_level s ! i)) [0..<nat NUMPIXELS]"
proof -
  define buf where "buf = deref_buffer (read_buffer s) s"
  have len: "length buf = 1024" "456 \<le> length (deref_buffer (read_buffer s) s)"
    using assms(1) by (simp_all add: buf_def fft_size_def)
  have a: "length (auto_gain_level s) = 60" "length (pixels s) = 60"
    using assms by (simp_all add: NUMPIXELS_def)
  have lens: "map (\<lambda>i. length (band_bins buf i)) [0..<60] = map nat frequency_bins_count"
  proof (rule nth_equalityI)
    show "length (map (\<lambda>i. length (band_bins buf i)) [0..<60]) = length (map nat frequency_bins_count)"
      by (simp add: length_frequency_bins_count)
  next
    fix i assume "i < length (map (\<lambda>i. length (band_bins buf i)) [0..<60])"
    then have i: "i < 60" by simp
    have "band_start i + frequency_bins_count ! i \<le> 456"
      using band_start_le [of "Suc i"] i by (simp add: band_start_Suc)
    moreover have "0 \<le> frequency_bins_count ! i"
      using i by (auto simp: length_frequency_bins_count intro: frequency_bins_count_nonneg)
    ultimately have "nat (frequency_bins_count ! i) \<le> length buf - nat (band_start i)"
      using band_start_nonneg [of i] by (simp add: len)
    then show "map (\<lambda>i. length (band_bins buf i)) [0..<60] ! i = map nat frequency_bins_count ! i"
      using i by (simp add: band_bins_def length_frequency_bins_count)
  qed
  show ?thesis
    using band_bins_concat [of 60 buf] lens pixels_loop_eq [OF len(2) a]
    by (simp add: sum_frequency_bins_count NUMPIXELS_def band_start_60 buf_def)
qed

section \<open>Removing the DC bias\<close>

lemma fold_index:
  "fold (\<lambda>i. g (xs ! i)) [0..<length xs] a = fold g xs a"
proof (induction xs arbitrary: a rule: rev_induct)
  case Nil
  then show ?case by simp
next
  case (snoc x xs)
  have "fold (\<lambda>i. g ((xs @ [x]) ! i)) [0..<length xs] a = fold (\<lambda>i. g (xs ! i)) [0..<length xs] a"
    by (rule fold_cong) (simp_all add: nth_append)
  then show ?case
    using snoc.IH by simp
qed

lemma int32_id: "- (2 ^ 31) \<le> k \<Longrightarrow> k < 2 ^ 31 \<Longrightarrow> int32 k = k"
  unfolding int32_def by (rule signed_take_bit_int_eq_self)

lemma sint_short_bounds: "- 32768 \<le> sint (x :: short)" "sint (x :: short) \<le> 32767"
  using sint_range_size [of x] by (simp_all add: word_size)

lemma sum_sint_bounds:
  "- (32768 * int (length xs)) \<le> sum_list (map sint (xs :: short list))"
  "sum_list (map sint (xs :: short list)) \<le> 32767 * int (length xs)"
proof (induction xs)
  case Nil
  case 1 show ?case by simp
  case 2 show ?case by simp
next
  case (Cons x xs)
  case 1 show ?case using Cons.IH(1) sint_short_bounds(1) [of x] by simp
  case 2 show ?case using Cons.IH(2) sint_short_bounds(2) [of x] by simp
qed

lemma fold_int32_sum:
  assumes "\<bar>a\<bar> + 32768 * int (length xs) < 2 ^ 31"
  shows "fold (\<lambda>x avg. int32 (avg + sint (x :: short))) xs a = a + sum_list (map sint xs)"
  using assms
proof (induction xs arbitrary: a)
  case Nil
  then show ?case by simp
next
  case (Cons x xs)
  have b: "- 32768 \<le> sint x" "sint x \<le> 32767"
    by (rule sint_short_bounds)+
  have "int32 (a + sint x) = a + sint x"
    using Cons.prems b by (intro int32_id) auto
  moreover have "\<bar>a + sint x\<bar> + 32768 * int (length xs) < 2 ^ 31"
    using Cons.prems b by auto
  ultimately show ?case
    using Cons.IH [of "a + sint x"] by simp
qed

lemma RemoveDCBias_sum_eq:
  assumes "length data = nat fft_size"
  shows "RemoveDCBias_sum data = sum_list (map sint data)"
proof -
  have "RemoveDCBias_sum data = fold (\<lambda>x avg. int32 (avg + sint x)) data 0"
    unfolding RemoveDCBias_sum_def assms [symmetric]
    using fold_index [of "\<lambda>x avg. int32 (avg + sint x)" data 0] by simp
  also have "\<dots> = 0 + sum_list (map sint data)"
    by (rule fold_int32_sum) (simp add: assms fft_size_def)
  finally show ?thesis by simp
qed

lemma fold_update_index:
  "n \<le> length xs \<Longrightarrow>
   fold (\<lambda>i d. d[i := g (d ! i)]) [0..<n] xs = map g (take n xs) @ drop n xs"
proof (induction n)
  case 0
  then show ?case by simp
next
  case (Suc n)
  then have n: "n < length xs" by simp
  have "(map g (take n xs) @ drop n xs)[n := g ((map g (take n xs) @ drop n xs) ! n)] =
      map g (take (Suc n) xs) @ drop (Suc n) xs"
    using n by (simp add: list_update_append nth_append take_Suc_conv_app_nth
        Cons_nth_drop_Suc [symmetric] min_def)
  then show ?case
    using Suc.IH n by simp
qed

lemma RemoveDCBias_eq:
  assumes "length data = nat fft_size"
  shows "RemoveDCBias data =
     map (\<lambda>x. word_of_int (sint x - int32 (RemoveDCBias_sum data sdiv fft_size))) data"
  unfolding RemoveDCBias_def Let_def assms [symmetric]
  using fold_update_index [of "length data" data] by simp

lemma sint_word_of_int_short:
  "- 32768 \<le> k \<Longrightarrow> k \<le> 32767 \<Longrightarrow> sint (word_of_int k :: short) = k"
  by (simp add: signed_of_int signed_take_bit_int_eq_self)

lemma partial_sums_bounded:
  assumes "length data = nat fft_size"
  shows "\<bar>sum_list (map sint (take n (data :: short list)))\<bar> \<le> 2 ^ 25"
proof -
  have "int (length (take n data)) \<le> 1024"
    using assms by (simp add: fft_size_def)
  then show ?thesis
    using sum_sint_bounds [of "take n data"] by simp
qed

lemma sum_list_map_diff_const:
  "sum_list (map (\<lambda>x. f x - (c :: int)) xs) = sum_list (map f xs) - int (length xs) * c"
  by (induction xs) (simp_all add: algebra_simps)

lemma RemoveDCBias_mean_fits:
  assumes "length data = nat fft_size" and "bias_fits data"
  shows "\<bar>block_mean (RemoveDCBias data)\<bar> < 1"
proof -
  define S where "S = sum_list (map sint data)"
  define avg where "avg = int32 (S sdiv fft_size)"
  have sum: "RemoveDCBias_sum data = S"
    by (simp add: RemoveDCBias_sum_eq [OF assms(1)] S_def)
  have Sb: "\<bar>S\<bar> \<le> 2 ^ 25"
    using partial_sums_bounded [OF assms(1), of "length data"] by (simp add: S_def)
  have "S sdiv fft_size \<in> {- \<bar>S\<bar>..\<bar>S\<bar>}"
    by (rule sdiv_int_range)
  then have avg: "avg = S sdiv fft_size"
    unfolding avg_def using Sb by (intro int32_id) auto
  have fits: "- 32768 \<le> sint x - avg \<and> sint x - avg \<le> 32767" if "x \<in> set data" for x
    using assms(2) that by (simp add: bias_fits_def list_all_iff sum avg_def)
  have r: "RemoveDCBias data = map (\<lambda>x. word_of_int (sint x - avg)) data"
    by (simp add: RemoveDCBias_eq [OF assms(1)] sum avg_def)
  have e: "sint (word_of_int (sint x - avg) :: short) = sint x - avg" if "x \<in> set data" for x
    using fits [OF that] by (intro sint_word_of_int_short) auto
  have "map sint (RemoveDCBias data) = map (\<lambda>x. sint x - avg) data"
    unfolding r map_map comp_def by (rule map_cong [OF refl]) (rule e)
  then have "sum_list (map sint (RemoveDCBias data)) = S - fft_size * avg"
    using assms(1) by (simp add: sum_list_map_diff_const S_def fft_size_def)
  also have "\<dots> = S smod fft_size"
    by (simp add: avg minus_mult_sdiv_eq_smod)
  finally have total: "sum_list (map sint (RemoveDCBias data)) = S smod fft_size" .
  have "S smod fft_size \<in> {- \<bar>fft_size\<bar> + 1..\<bar>fft_size\<bar> - 1}"
    by (rule smod_int_range) (simp add: fft_size_def)
  then have "\<bar>S smod fft_size\<bar> < 1024"
    by (auto simp: fft_size_def)
  moreover have "length (RemoveDCBias data) = 1024"
    using assms(1) by (simp add: r fft_size_def)
  ultimately show ?thesis
    by (simp add: block_mean_def total)
qed

text \<open>
  Claim C5, amended.  For every block of \<^verbatim>\<open>fft_size\<close> samples, whatever they are,
  the 32-bit accumulator holds the exact sum of the samples: every partial sum is at
  most \<open>2 ^ 25\<close> in magnitude, so no addition overflows.  And if no sample leaves the
  16-bit range when the average is subtracted from it, the mean of the block that
  \<^verbatim>\<open>RemoveDCBias\<close> leaves is less than 1 in magnitude.
\<close>

theorem RemoveDCBias_mean:
  assumes "length data = nat fft_size"
  shows "RemoveDCBias_sum data = sum_list (map sint data) \<and>
         (\<forall>n. \<bar>sum_list (map sint (take n data))\<bar> \<le> 2 ^ 25) \<and>
         (bias_fits data \<longrightarrow> \<bar>block_mean (RemoveDCBias data)\<bar> < 1)"
  using RemoveDCBias_sum_eq [OF assms] partial_sums_bounded [OF assms]
    RemoveDCBias_mean_fits [OF assms]
  by simp

lemma sum_list_sint_replicate:
  "sum_list (map sint (replicate n (x :: short))) = int n * sint x"
  by (simp add: sum_list_replicate)

theorem RemoveDCBias_mean_witness:
  "length (replicate 1024 (100 :: short)) = nat fft_size \<and>
   bias_fits (replicate 1024 100) \<and>
   RemoveDCBias_sum (replicate 1024 100) = 102400 \<and>
   RemoveDCBias (replicate 1024 100) = replicate 1024 0 \<and>
   \<bar>block_mean (RemoveDCBias (replicate 1024 100))\<bar> < 1 \<and>
   length (replicate 1023 (32767 :: short) @ [- 32768]) = nat fft_size \<and>
   \<not> bias_fits (replicate 1023 32767 @ [- 32768]) \<and>
   RemoveDCBias_sum (replicate 1023 32767 @ [- 32768]) = 33487873 \<and>
   \<bar>sum_list (map sint (take 1023 (replicate 1023 (32767 :: short) @ [- 32768])))\<bar> \<le> 2 ^ 25"
proof -
  let ?d = "replicate 1024 (100 :: short)"
  let ?e = "replicate 1023 (32767 :: short) @ [- 32768]"
  have len: "length ?d = nat fft_size"
    by (simp add: fft_size_def)
  have sum: "RemoveDCBias_sum ?d = 102400"
    by (simp add: RemoveDCBias_sum_eq [OF len] sum_list_replicate)
  have avg: "int32 (102400 sdiv fft_size) = 100"
    by (simp add: fft_size_def int32_def signed_divide_int_def)
  have fits: "bias_fits ?d"
    by (simp add: bias_fits_def list_all_iff sum avg)
  have r: "RemoveDCBias ?d = replicate 1024 0"
    by (simp add: RemoveDCBias_eq [OF len] sum avg)
  have len': "length ?e = nat fft_size"
    by (simp add: fft_size_def)
  have sum': "sum_list (map sint ?e) = 33487873"
    by (simp add: sum_list_replicate)
  have avg': "int32 (33487873 sdiv fft_size) = 32703"
    by (simp add: fft_size_def int32_def signed_divide_int_def)
  have acc: "RemoveDCBias_sum ?e = 33487873"
    using RemoveDCBias_mean [OF len'] by (simp only: sum')
  have nofit: "\<not> bias_fits ?e"
    by (simp add: bias_fits_def acc avg')
  have part: "\<bar>sum_list (map sint (take 1023 ?e))\<bar> \<le> 2 ^ 25"
    using RemoveDCBias_mean [OF len'] by blast
  have mean: "\<bar>block_mean (RemoveDCBias ?d)\<bar> < 1"
    using RemoveDCBias_mean [OF len] fits by blast
  show ?thesis
    using len fits sum r mean len' nofit acc part by blast
qed

text \<open>
  Claim C5, as stated for every block, fails: in a block of 1023 samples 32767 and one
  sample -32768 the average is 32703, the difference -65471 of the last sample is
  stored as 65, and the mean of the result is above 64.
\<close>

theorem RemoveDCBias_mean_wraps:
  "length (replicate 1023 (32767 :: short) @ [- 32768]) = nat fft_size \<and>
   \<not> \<bar>block_mean (RemoveDCBias (replicate 1023 32767 @ [- 32768]))\<bar> < 1"
proof -
  let ?d = "replicate 1023 (32767 :: short) @ [- 32768]"
  have len: "length ?d = nat fft_size"
    by (simp add: fft_size_def)
  have sum: "RemoveDCBias_sum ?d = 33487873"
    by (simp add: RemoveDCBias_sum_eq [OF len] sum_list_replicate)
  have avg: "int32 (33487873 sdiv fft_size) = 32703"
    by (simp add: fft_size_def int32_def signed_divide_int_def)
  have r: "RemoveDCBias ?d = replicate 1023 64 @ [65]"
    by (simp add: RemoveDCBias_eq [OF len] sum avg)
  have "block_mean (replicate 1023 64 @ [65 :: short]) = 65537 / 1024"
    by (simp add: block_mean_def sum_list_replicate)
  then show ?thesis
    using len by (simp add: r)
qed

section \<open>What the main loop sees of the samples appended\<close>

lemma blocks_sized_deref: "blocks_sized s \<Longrightarrow> length (deref_buffer p s) = nat fft_size"
  by (cases p) (simp_all add: blocks_sized_def)

lemma blocks_sized_store_buffer:
  "blocks_sized s \<Longrightarrow> length b = nat fft_size \<Longrightarrow> blocks_sized (store_buffer p b s)"
  by (cases p) (simp_all add: blocks_sized_def)

lemma blocks_sized_store_size [simp]: "blocks_sized (store_size p n s) = blocks_sized s"
  by (cases p) (simp_all add: blocks_sized_def)

lemma blocks_sized_pointer_update [simp]:
  "blocks_sized (s\<lparr>write_size := q\<rparr>) = blocks_sized s"
  "blocks_sized (s\<lparr>write_buffer := q\<rparr>) = blocks_sized s"
  "blocks_sized (s\<lparr>read_size := q\<rparr>) = blocks_sized s"
  "blocks_sized (s\<lparr>read_buffer := q\<rparr>) = blocks_sized s"
  by (simp_all add: blocks_sized_def)

lemma sizes_sum: "buffer1_size s + buffer2_size s = deref_size p s + deref_size (other_buffer p) s"
  by (cases p) simp_all

lemma take_store_at_end:
  "off \<le> length buf \<Longrightarrow> take (off + length xs) (store_at buf off xs) = take off buf @ xs"
  by (simp add: store_at_def)

text \<open>A call of the handler that finds nothing to read changes nothing.\<close>

lemma onPDMdata_read_nothing:
  assumes "0 \<le> deref_size (write_size s) s" and "deref_size (write_size s) s \<le> fft_size"
    and "blocks_sized s"
  shows "fst (onPDMdata_read [] s) = s"
proof -
  have "nat (deref_size (write_size s) s) \<le> length (deref_buffer (write_buffer s) s)"
    using assms by (simp add: blocks_sized_deref)
  then have "store_at (deref_buffer (write_buffer s) s) (nat (deref_size (write_size s) s)) [] =
      deref_buffer (write_buffer s) s"
    by (simp add: store_at_def)
  moreover have "min (fft_size - deref_size (write_size s) s) 0 = 0"
    using assms by simp
  ultimately show ?thesis
    by (cases "write_size s"; cases "write_buffer s") (simp_all add: onPDMdata_read_eq)
qed

lemma onPDMdata_filling:
  assumes fill: "filling p s" and other: "deref_size (other_buffer p) s = 0"
    and sized: "blocks_sized s"
    and cap: "buffer1_size s + buffer2_size s + int (length pdm) \<le> fft_size"
  shows "filling p (fst (onPDMdata pdm s)) \<and>
         deref_size (other_buffer p) (fst (onPDMdata pdm s)) = 0 \<and>
         blocks_sized (fst (onPDMdata pdm s)) \<and>
         read_size (fst (onPDMdata pdm s)) = read_size s \<and>
         read_buffer (fst (onPDMdata pdm s)) = read_buffer s \<and>
         deref_size p (fst (onPDMdata pdm s)) = deref_size p s + int (length pdm) \<and>
         take (nat (deref_size p (fst (onPDMdata pdm s)))) (deref_buffer p (fst (onPDMdata pdm s))) =
           take (nat (deref_size p s)) (deref_buffer p s) @ pdm"
proof -
  define w where "w = deref_size p s"
  have cap': "w + int (length pdm) \<le> fft_size"
    using cap other by (simp add: sizes_sum [of s p] w_def)
  from fill consider
    (a) "writing p s" "0 \<le> w" "w < fft_size" |
    (b) "writing (other_buffer p) s" "w = fft_size"
    by (auto simp: filling_def w_def)
  then show ?thesis
  proof cases
    case a
    define buf where "buf = deref_buffer p s"
    have len: "length buf = nat fft_size"
      by (simp add: buf_def blocks_sized_deref [OF sized])
    have n: "min (fft_size - w) (int (length pdm)) = int (length pdm)"
      using cap' by simp
    define s1 where "s1 = store_size p (w + int (length pdm))
        (store_buffer p (store_at buf (nat w) pdm) s)"
    have read: "onPDMdata_read pdm s = (s1, [], int (length pdm))"
      using a(1) by (simp add: onPDMdata_read_eq writing_def w_def [symmetric] n
          buf_def [symmetric] s1_def Let_def)
    have fits: "nat w + length pdm \<le> length buf"
      using cap' a(2) by (simp add: len)
    have len1: "length (store_at buf (nat w) pdm) = nat fft_size"
      using fits by (simp add: store_at_def len [symmetric])
    have tk: "take (nat (w + int (length pdm))) (store_at buf (nat w) pdm) = take (nat w) buf @ pdm"
      using take_store_at_end [of "nat w" buf pdm] fits a(2) by (simp add: nat_add_distrib)
    have s1w: "write_size s1 = p" "write_buffer s1 = p"
      using a(1) by (simp_all add: s1_def writing_def)
    have s1p: "deref_size p s1 = w + int (length pdm)"
      "deref_size (other_buffer p) s1 = 0" "deref_buffer p s1 = store_at buf (nat w) pdm"
      using other by (simp_all add: s1_def)
    have s1b: "blocks_sized s1"
      using sized len1 by (simp add: s1_def blocks_sized_store_buffer)
    have s1r: "read_size s1 = read_size s" "read_buffer s1 = read_buffer s"
      by (simp_all add: s1_def)
    have res: "fst (onPDMdata pdm s) = onPDMdata_switch s1"
      by (simp add: onPDMdata_eq read)
    show ?thesis
    proof (cases "w + int (length pdm) = fft_size")
      case True
      have sw: "onPDMdata_switch s1 = s1\<lparr>write_size := other_buffer p, write_buffer := other_buffer p\<rparr>"
        using True by (simp add: onPDMdata_switch_def s1w s1p Let_def)
      show ?thesis
        unfolding res sw using True s1p s1b s1r tk
        by (simp add: filling_def writing_def w_def [symmetric] buf_def [symmetric])
    next
      case False
      have sw: "onPDMdata_switch s1 = s1"
        using False by (simp add: onPDMdata_switch_def s1w s1p Let_def)
      show ?thesis
        unfolding res sw using False cap' a(2) s1p s1b s1r s1w tk
        by (simp add: filling_def writing_def w_def [symmetric] buf_def [symmetric])
    qed
  next
    case b
    have nil: "pdm = []"
      using cap' b(2) by simp
    have ws: "deref_size (write_size s) s = 0"
      using b(1) other by (simp add: writing_def)
    have read: "fst (onPDMdata_read [] s) = s"
      by (rule onPDMdata_read_nothing) (simp_all add: ws sized fft_size_def)
    have sw: "onPDMdata_switch s = s"
      by (simp add: onPDMdata_switch_def ws fft_size_def Let_def)
    have res: "fst (onPDMdata pdm s) = s"
      by (simp add: onPDMdata_eq nil read sw)
    show ?thesis
      unfolding res using fill other sized by (simp add: nil)
  qed
qed

lemma onPDMdata_full:
  assumes fill: "filling p s" and full: "deref_size p s = fft_size"
    and other: "deref_size (other_buffer p) s = 0" and sized: "blocks_sized s"
    and cap: "buffer1_size s + buffer2_size s + int (length pdm) \<le> fft_size"
  shows "pdm = []" and "fst (onPDMdata pdm s) = s"
proof -
  show nil: "pdm = []"
    using cap full other by (simp add: sizes_sum [of s p])
  have "writing (other_buffer p) s"
    using fill full by (auto simp: filling_def)
  then have ws: "deref_size (write_size s) s = 0"
    using other by (simp add: writing_def)
  have read: "fst (onPDMdata_read [] s) = s"
    by (rule onPDMdata_read_nothing) (simp_all add: ws sized fft_size_def)
  have sw: "onPDMdata_switch s = s"
    by (simp add: onPDMdata_switch_def ws fft_size_def Let_def)
  show "fst (onPDMdata pdm s) = s"
    by (simp add: onPDMdata_eq nil read sw)
qed

lemma in_step_interrupt:
  assumes step: "in_step pc s" and sized: "blocks_sized s"
    and cap: "buffer1_size s + buffer2_size s + int (length pdm) \<le> fft_size"
  shows "in_step pc (fst (onPDMdata pdm s)) \<and> blocks_sized (fst (onPDMdata pdm s)) \<and>
         waiting pc (fst (onPDMdata pdm s)) = waiting pc s @ pdm"
proof -
  define r where "r = read_size s"
  define s' where "s' = fst (onPDMdata pdm s)"
  have part: "filling p s \<Longrightarrow> deref_size (other_buffer p) s = 0 \<Longrightarrow>
      filling p s' \<and> deref_size (other_buffer p) s' = 0 \<and> blocks_sized s' \<and>
      read_size s' = read_size s \<and> read_buffer s' = read_buffer s \<and>
      take (nat (deref_size p s')) (deref_buffer p s') =
        take (nat (deref_size p s)) (deref_buffer p s) @ pdm" for p
    using onPDMdata_filling [of p s pdm, OF _ _ sized cap] unfolding s'_def by blast
  show ?thesis
  proof (cases pc)
    case At_test
    then have "filling r s" "deref_size (other_buffer r) s = 0"
      using step by (simp_all add: r_def)
    from part [OF this] show ?thesis
      using At_test step by (simp add: waiting_def next_block_def r_def s'_def)
  next
    case At_process
    then have "filling r s" "deref_size r s = fft_size" "deref_size (other_buffer r) s = 0"
      using step by (simp_all add: filling_def r_def)
    from onPDMdata_full [OF this sized cap] show ?thesis
      using At_process step sized by simp
  next
    case At_mark_empty
    then have "filling r s" "deref_size r s = fft_size" "deref_size (other_buffer r) s = 0"
      using step by (simp_all add: filling_def r_def)
    from onPDMdata_full [OF this sized cap] show ?thesis
      using At_mark_empty step sized by simp
  next
    case At_next_size
    then have "filling (other_buffer r) s" "deref_size (other_buffer (other_buffer r)) s = 0"
      using step by (simp_all add: r_def)
    from part [OF this] show ?thesis
      using At_next_size step by (simp add: waiting_def next_block_def r_def s'_def)
  next
    case At_next_buffer
    then have "filling r s" "deref_size (other_buffer r) s = 0"
      using step by (simp_all add: r_def)
    from part [OF this] show ?thesis
      using At_next_buffer step by (simp add: waiting_def next_block_def r_def s'_def)
  qed
qed

lemma length_RemoveDCBias:
  "length data = nat fft_size \<Longrightarrow> length (RemoveDCBias data) = nat fft_size"
  by (simp add: RemoveDCBias_eq)

lemma deref_buffer_pixels_loop [simp]:
  "deref_buffer p (pixels_loop i off s) = deref_buffer p s"
  by (cases p) (simp_all add: pixels_loop_frame)

lemma process_block_buffers:
  "deref_buffer (read_buffer s) (process_block Z s) =
     Z (RemoveDCBias (deref_buffer (read_buffer s) s))"
  "deref_buffer (other_buffer (read_buffer s)) (process_block Z s) =
     deref_buffer (other_buffer (read_buffer s)) s"
  by (simp_all add: process_block_def Let_def)

lemma blocks_sized_process_block:
  assumes "\<And>b. length (Z b) = length b" and "blocks_sized s"
  shows "blocks_sized (process_block Z s)"
proof -
  have "length (deref_buffer p (process_block Z s)) = nat fft_size" for p
  proof (cases "p = read_buffer s")
    case True
    then show ?thesis
      using assms by (simp add: process_block_buffers length_RemoveDCBias blocks_sized_deref)
  next
    case False
    then have "p = other_buffer (read_buffer s)" by (simp add: neq_other_buffer)
    then show ?thesis
      using assms(2) by (simp add: process_block_buffers blocks_sized_deref)
  qed
  from this [of Buffer1] this [of Buffer2] show ?thesis
    by (simp add: blocks_sized_def)
qed

lemma in_step_loop_step:
  assumes Z: "\<And>b. length (Z b) = length b"
    and step: "in_step pc s" and sized: "blocks_sized s"
  shows "in_step (fst (loop_step Z (pc, s))) (snd (loop_step Z (pc, s))) \<and>
         blocks_sized (snd (loop_step Z (pc, s))) \<and>
         (if pc = At_process then deref_buffer (read_buffer s) s else []) @
           waiting (fst (loop_step Z (pc, s))) (snd (loop_step Z (pc, s))) = waiting pc s"
proof (cases pc)
  case At_test
  then show ?thesis
    using step sized by (auto simp: filling_def waiting_def next_block_def)
next
  case At_process
  have "length (deref_buffer (read_size s) s) = nat fft_size"
    by (rule blocks_sized_deref [OF sized])
  then show ?thesis
    using At_process step blocks_sized_process_block [OF Z sized]
    by (simp add: waiting_def next_block_def process_block_frame writing_def)
next
  case At_mark_empty
  then show ?thesis
    using step sized
    by (simp add: waiting_def next_block_def filling_def writing_def fft_size_def)
next
  case At_next_size
  then show ?thesis
    using step sized
    by (simp add: waiting_def next_block_def filling_def writing_def)
next
  case At_next_buffer
  then show ?thesis
    using step sized
    by (simp add: waiting_def next_block_def filling_def writing_def)
qed

lemma run_invariant:
  assumes Z: "\<And>b. length (Z b) = length b"
  shows "in_step pc s \<Longrightarrow> blocks_sized s \<Longrightarrow> within_capacity Z es (pc, s) \<Longrightarrow>
         list_all (\<lambda>b. length b = nat fft_size) obs \<Longrightarrow>
         run Z es (pc, s) obs = ((pc', s'), obs') \<Longrightarrow>
         in_step pc' s' \<and> blocks_sized s' \<and>
         concat obs' @ waiting pc' s' = concat obs @ waiting pc s @ delivered es \<and>
         list_all (\<lambda>b. length b = nat fft_size) obs'"
proof (induction es arbitrary: pc s obs)
  case Nil
  then show ?case by simp
next
  case (Cons e es)
  show ?case
  proof (cases e)
    case (Interrupt pdm)
    have cap: "buffer1_size s + buffer2_size s + int (length pdm) \<le> fft_size"
      and rest: "within_capacity Z es (pc, fst (onPDMdata pdm s))"
      using Cons.prems(3) by (simp_all add: Interrupt)
    have run: "run Z es (pc, fst (onPDMdata pdm s)) obs = ((pc', s'), obs')"
      using Cons.prems(5) by (simp add: Interrupt)
    have st: "in_step pc (fst (onPDMdata pdm s))" "blocks_sized (fst (onPDMdata pdm s))"
      "waiting pc (fst (onPDMdata pdm s)) = waiting pc s @ pdm"
      using in_step_interrupt [OF Cons.prems(1,2) cap] by simp_all
    show ?thesis
      using Cons.IH [OF st(1,2) rest Cons.prems(4) run]
      by (simp add: st(3) Interrupt)
  next
    case Loop_step
    define c where "c = loop_step Z (pc, s)"
    define obs1 where "obs1 = (if pc = At_process then obs @ [deref_buffer (read_buffer s) s] else obs)"
    have rest: "within_capacity Z es (fst c, snd c)"
      using Cons.prems(3) by (simp add: Loop_step c_def)
    have run: "run Z es (fst c, snd c) obs1 = ((pc', s'), obs')"
      using Cons.prems(5) by (simp add: Loop_step c_def obs1_def)
    have st: "in_step (fst c) (snd c)" "blocks_sized (snd c)"
      "(if pc = At_process then deref_buffer (read_buffer s) s else []) @ waiting (fst c) (snd c) =
         waiting pc s"
      using in_step_loop_step [OF Z Cons.prems(1,2)] by (simp_all add: c_def)
    have lens: "list_all (\<lambda>b. length b = nat fft_size) obs1"
      using Cons.prems(4) blocks_sized_deref [OF Cons.prems(2)] by (simp add: obs1_def)
    have "concat obs1 @ waiting (fst c) (snd c) = concat obs @ waiting pc s"
      using st(3) by (auto simp: obs1_def)
    then show ?thesis
      using Cons.IH [OF st(1,2) rest lens run]
      by (simp add: Loop_step)
  qed
qed

lemma in_step_initial: "in_step At_test initial_sketch" "blocks_sized initial_sketch"
  "waiting At_test initial_sketch = []"
  by (simp_all add: initial_sketch_def setup_sketch_def globals_def filling_def writing_def
      blocks_sized_def waiting_def next_block_def fft_size_def)

text \<open>
  Claim C3.  In every run from the initial state in which the peripheral never
  delivers more than a block before the main loop has drained the full one (and the
  transform keeps the length of the block it rewrites), the blocks the main loop has
  worked on, followed by the samples waiting in the block it starts on next, are
  exactly the samples the handler appended, in the order appended: none is lost and
  none appears twice.  Every block the loop works on holds \<^verbatim>\<open>fft_size\<close> samples.
\<close>

theorem consumer_observes_appended:
  assumes "\<And>b. length (ZeroFFT b) = length b"
    and "within_capacity ZeroFFT es (At_test, initial_sketch)"
    and "run ZeroFFT es (At_test, initial_sketch) [] = ((pc, s), obs)"
  shows "concat obs @ waiting pc s = delivered es \<and>
         list_all (\<lambda>b. length b = nat fft_size) obs"
  using run_invariant [OF assms(1) in_step_initial(1,2) assms(2) _ assms(3)]
  by (simp add: in_step_initial(3))

theorem consumer_observes_appended_witness:
  "(\<forall>b :: short list. length ((\<lambda>b. b) b) = length b) \<and>
   within_capacity (\<lambda>b. b)
     [Interrupt (replicate 1000 1), Loop_step, Interrupt (replicate 24 2),
      Loop_step, Loop_step, Loop_step, Interrupt [5, 6]] (At_test, initial_sketch) \<and>
   (case run (\<lambda>b. b)
       [Interrupt (replicate 1000 1), Loop_step, Interrupt (replicate 24 2),
        Loop_step, Loop_step, Loop_step, Interrupt [5, 6]] (At_test, initial_sketch) [] of
      ((pc, s), obs) \<Rightarrow>
        concat obs @ waiting pc s = replicate 1000 1 @ replicate 24 2 @ [5, 6] \<and>
        list_all (\<lambda>b. length b = nat fft_size) obs)"
proof -
  let ?es = "[Interrupt (replicate 1000 1), Loop_step, Interrupt (replicate 24 2),
      Loop_step, Loop_step, Loop_step, Interrupt [5, 6]]"
  have Z: "\<And>b :: short list. length ((\<lambda>b. b) b) = length b"
    by simp
  have s1: "fst (onPDMdata (replicate 1000 1) initial_sketch) =
      initial_sketch\<lparr>audio_buffer1 := replicate 1000 1 @ replicate 24 0, buffer1_size := 1000\<rparr>"
    by (simp add: onPDMdata_eq onPDMdata_read_eq onPDMdata_switch_def Let_def store_at_def
        initial_sketch_def setup_sketch_def globals_def fft_size_def)
  have s2: "fst (onPDMdata (replicate 24 2)
        (initial_sketch\<lparr>audio_buffer1 := replicate 1000 1 @ replicate 24 0, buffer1_size := 1000\<rparr>)) =
      initial_sketch\<lparr>audio_buffer1 := replicate 1000 1 @ replicate 24 2, buffer1_size := 1024,
        write_size := Buffer2, write_buffer := Buffer2\<rparr>"
    by (simp add: onPDMdata_eq onPDMdata_read_eq onPDMdata_switch_def Let_def store_at_def
        initial_sketch_def setup_sketch_def globals_def fft_size_def)
  have cap: "within_capacity (\<lambda>b. b) ?es (At_test, initial_sketch)"
    by (simp add: s1 s2 process_block_frame)
      (simp add: initial_sketch_def setup_sketch_def globals_def fft_size_def process_block_frame)
  obtain pc s obs where r: "run (\<lambda>b. b) ?es (At_test, initial_sketch) [] = ((pc, s), obs)"
    by (metis surj_pair)
  have d: "delivered ?es = replicate 1000 1 @ replicate 24 2 @ [5, 6]"
    by simp
  have c: "concat obs @ waiting pc s = replicate 1000 1 @ replicate 24 2 @ [5, 6] \<and>
      list_all (\<lambda>b. length b = nat fft_size) obs"
    using consumer_observes_appended [OF Z cap r] unfolding d .
  show ?thesis
    unfolding r prod.case using cap c by blast
qed

section \<open>Properties of the rounding\<close>

lemma pow2_powi: "pow2 e = 2 powi e"
  by (simp add: pow2_def power_int_def inverse_eq_divide power_one_over)

lemma pow2_pos [simp]: "0 < pow2 e"
  by (simp add: pow2_powi)

lemma pow2_add: "pow2 (a + b) = pow2 a * pow2 b"
  by (simp add: pow2_powi power_int_add)

lemma pow2_0 [simp]: "pow2 0 = 1"
  by (simp add: pow2_def)

lemma pow2_Suc: "pow2 (e + 1) = 2 * pow2 e"
  by (simp add: pow2_powi power_int_add)

lemma pow2_Suc' [simp]: "pow2 (1 + e) = 2 * pow2 e" "pow2 (2 + e) = 4 * pow2 e"
  using pow2_Suc [of e] pow2_Suc [of "e + 1"] by (simp_all add: add.commute add.left_commute)

lemma pow2_pred: "pow2 (e - 1) = pow2 e / 2"
  using pow2_Suc [of "e - 1"] by simp

lemma pow2_mono: "a \<le> b \<Longrightarrow> pow2 a \<le> pow2 b"
  by (simp add: pow2_powi power_int_increasing)

lemma pow2_of_nat: "pow2 (int n) = 2 ^ n"
  by (simp add: pow2_def)

lemma scale_down_range:
  assumes "1 \<le> x" and "x < 2 ^ Suc n"
  shows "0 \<le> scale_down n x \<and> scale_down n x \<le> int n \<and>
         pow2 (scale_down n x) \<le> x \<and> x < pow2 (scale_down n x + 1)"
  using assms
proof (induction n arbitrary: x)
  case 0
  then show ?case by (simp add: pow2_def)
next
  case (Suc n)
  show ?case
  proof (cases "2 \<le> x")
    case True
    then have "1 \<le> x / 2" and "x / 2 < 2 ^ Suc n"
      using Suc.prems by simp_all
    from Suc.IH [OF this] have IH: "0 \<le> scale_down n (x / 2)" "scale_down n (x / 2) \<le> int n"
      "pow2 (scale_down n (x / 2)) \<le> x / 2" "x / 2 < pow2 (scale_down n (x / 2) + 1)"
      by simp_all
    have e: "scale_down (Suc n) x = scale_down n (x / 2) + 1"
      using True by simp
    show ?thesis
      unfolding e using IH by (simp add: pow2_Suc)
  next
    case False
    then show ?thesis
      using Suc.prems by (simp add: pow2_def)
  qed
qed

lemma scale_down_clamped:
  assumes "2 ^ n \<le> x"
  shows "scale_down n x = int n"
  using assms
proof (induction n arbitrary: x)
  case 0
  then show ?case by simp
next
  case (Suc n)
  have "2 \<le> x"
    using Suc.prems one_le_power [of "2 :: real" n] unfolding power_Suc by linarith
  moreover have "2 ^ n \<le> x / 2"
    using Suc.prems by simp
  ultimately show ?case
    using Suc.IH [of "x / 2"] by simp
qed

lemma scale_up_ge_1: "1 \<le> x \<Longrightarrow> scale_up n x = 0"
  by (cases n) simp_all

lemma scale_up_range:
  assumes "x < 1" and "pow2 (- int n) \<le> x"
  shows "- int n \<le> scale_up n x \<and> scale_up n x \<le> - 1 \<and>
         pow2 (scale_up n x) \<le> x \<and> x < pow2 (scale_up n x + 1)"
  using assms
proof (induction n arbitrary: x)
  case 0
  then show ?case by simp
next
  case (Suc n)
  show ?case
  proof (cases "2 * x < 1")
    case True
    have "pow2 (- int n) \<le> 2 * x"
      using Suc.prems(2) pow2_Suc [of "- int (Suc n)"] by simp
    from Suc.IH [OF True this] have IH: "- int n \<le> scale_up n (2 * x)" "scale_up n (2 * x) \<le> - 1"
      "pow2 (scale_up n (2 * x)) \<le> 2 * x" "2 * x < pow2 (scale_up n (2 * x) + 1)"
      by simp_all
    have e: "scale_up (Suc n) x = scale_up n (2 * x) - 1"
      using Suc.prems(1) by simp
    show ?thesis
      unfolding e using IH by (simp add: pow2_pred pow2_Suc)
  next
    case False
    then have "scale_up n (2 * x) = 0"
      by (simp add: scale_up_ge_1)
    then show ?thesis
      using Suc.prems(1) False by (simp add: pow2_def)
  qed
qed

lemma scale_up_clamped:
  assumes "x < pow2 (- int n)"
  shows "scale_up n x = - int n"
  using assms
proof (induction n arbitrary: x)
  case 0
  then show ?case by simp
next
  case (Suc n)
  have "pow2 (- int (Suc n)) \<le> pow2 0"
    by (rule pow2_mono) simp
  then have "x < 1"
    using Suc.prems by simp
  moreover have "2 * x < pow2 (- int n)"
    using Suc.prems pow2_Suc [of "- int (Suc n)"] by simp
  ultimately show ?case
    using Suc.IH [of "2 * x"] by simp
qed

text \<open>The exponent of every number is between -126 and 127, and in range it is its binade.\<close>

lemma float_exponent_bounds: "- 126 \<le> float_exponent x \<and> float_exponent x \<le> 127"
proof (cases "1 \<le> \<bar>x\<bar>")
  case True
  show ?thesis
  proof (cases "\<bar>x\<bar> < 2 ^ Suc 127")
    case True
    with scale_down_range [OF \<open>1 \<le> \<bar>x\<bar>\<close> this] \<open>1 \<le> \<bar>x\<bar>\<close> show ?thesis
      by (simp add: float_exponent_def)
  next
    case False
    then have "2 ^ 127 \<le> \<bar>x\<bar>" by simp
    from scale_down_clamped [OF this] \<open>1 \<le> \<bar>x\<bar>\<close> show ?thesis
      by (simp add: float_exponent_def)
  qed
next
  case False
  then have lt: "\<bar>x\<bar> < 1" by simp
  show ?thesis
  proof (cases "pow2 (- int 126) \<le> \<bar>x\<bar>")
    case True
    from scale_up_range [OF lt this] lt show ?thesis
      by (simp add: float_exponent_def)
  next
    case False
    then have "\<bar>x\<bar> < pow2 (- int 126)" by simp
    from scale_up_clamped [OF this] lt show ?thesis
      by (simp add: float_exponent_def)
  qed
qed

lemma float_exponent_le:
  "pow2 (float_exponent x) \<le> max \<bar>x\<bar> (pow2 (- 126))"
proof (cases "1 \<le> \<bar>x\<bar>")
  case True
  show ?thesis
  proof (cases "\<bar>x\<bar> < 2 ^ Suc 127")
    case True
    with scale_down_range [OF \<open>1 \<le> \<bar>x\<bar>\<close> this] \<open>1 \<le> \<bar>x\<bar>\<close> show ?thesis
      by (simp add: float_exponent_def max_def)
  next
    case False
    then have "2 ^ 127 \<le> \<bar>x\<bar>" by simp
    from scale_down_clamped [OF this] \<open>1 \<le> \<bar>x\<bar>\<close> this show ?thesis
      by (simp add: float_exponent_def pow2_def max_def)
  qed
next
  case False
  then have lt: "\<bar>x\<bar> < 1" by simp
  show ?thesis
  proof (cases "pow2 (- int 126) \<le> \<bar>x\<bar>")
    case True
    from scale_up_range [OF lt this] lt show ?thesis
      by (simp add: float_exponent_def max_def)
  next
    case False
    then have "\<bar>x\<bar> < pow2 (- int 126)" by simp
    from scale_up_clamped [OF this] lt show ?thesis
      by (simp add: float_exponent_def max_def)
  qed
qed

lemma float_exponent_binade:
  assumes "pow2 (- 126) \<le> \<bar>x\<bar>" and "\<bar>x\<bar> < pow2 128"
  shows "pow2 (float_exponent x) \<le> \<bar>x\<bar> \<and> \<bar>x\<bar> < pow2 (float_exponent x + 1)"
proof (cases "1 \<le> \<bar>x\<bar>")
  case True
  have "\<bar>x\<bar> < 2 ^ Suc 127"
    using assms(2) by (simp add: pow2_def)
  from scale_down_range [OF True this] True show ?thesis
    by (simp add: float_exponent_def)
next
  case False
  then have lt: "\<bar>x\<bar> < 1" by simp
  have "pow2 (- int 126) \<le> \<bar>x\<bar>"
    using assms(1) by simp
  from scale_up_range [OF lt this] lt show ?thesis
    by (simp add: float_exponent_def)
qed

lemma round_even_error: "\<bar>real_of_int (round_even x) - x\<bar> \<le> 1 / 2"
proof -
  have "real_of_int \<lfloor>x\<rfloor> \<le> x" and "x < real_of_int \<lfloor>x\<rfloor> + 1"
    by simp_all
  then show ?thesis
    by (auto simp: round_even_def Let_def)
qed

lemma round_even_of_int [simp]: "round_even (of_int k) = k"
  by (simp add: round_even_def)

lemma round_even_nonneg: "0 \<le> x \<Longrightarrow> 0 \<le> round_even x"
  by (auto simp: round_even_def Let_def)

lemma round_even_le: "x \<le> of_int k \<Longrightarrow> round_even x \<le> k"
proof -
  assume le: "x \<le> of_int k"
  then have f: "\<lfloor>x\<rfloor> \<le> k" by (simp add: floor_le_iff)
  show ?thesis
  proof (cases "\<lfloor>x\<rfloor> = k")
    case True
    then have "x = of_int k"
      using le of_int_floor_le [of x] by simp
    then show ?thesis by simp
  next
    case False
    then have "\<lfloor>x\<rfloor> + 1 \<le> k" using f by simp
    then show ?thesis
      by (auto simp: round_even_def Let_def)
  qed
qed

lemma round_even_ge: "of_int k \<le> x \<Longrightarrow> k \<le> round_even x"
proof -
  assume "of_int k \<le> x"
  then have "k \<le> \<lfloor>x\<rfloor>" by (simp add: le_floor_iff)
  then show ?thesis
    by (auto simp: round_even_def Let_def)
qed

lemma round32_error_ulp: "\<bar>round32 x - x\<bar> \<le> pow2 (float_exponent x - 24)"
proof -
  define q where "q = pow2 (float_exponent x - 23)"
  have q: "0 < q" by (simp add: q_def)
  have half: "q / 2 = pow2 (float_exponent x - 24)"
    using pow2_pred [of "float_exponent x - 23"] by (simp add: q_def)
  have "round32 x - x = (real_of_int (round_even (x / q)) - x / q) * q"
    using q by (simp add: round32_def Let_def q_def [symmetric] left_diff_distrib)
  then have "\<bar>round32 x - x\<bar> = \<bar>real_of_int (round_even (x / q)) - x / q\<bar> * q"
    using q by (simp add: abs_mult)
  also have "\<dots> \<le> 1 / 2 * q"
    using round_even_error [of "x / q"] q by (intro mult_right_mono) simp_all
  finally show ?thesis
    using half by simp
qed

lemma round32_error:
  "\<bar>round32 x - x\<bar> \<le> max \<bar>x\<bar> (pow2 (- 126)) * pow2 (- 24)"
proof -
  have "pow2 (float_exponent x - 24) = pow2 (float_exponent x) * pow2 (- 24)"
    using pow2_add [of "float_exponent x" "- 24"] by simp
  also have "\<dots> \<le> max \<bar>x\<bar> (pow2 (- 126)) * pow2 (- 24)"
    by (intro mult_right_mono float_exponent_le) (simp add: less_imp_le)
  finally show ?thesis
    using round32_error_ulp [of x] by simp
qed

lemma round32_nonneg: "0 \<le> x \<Longrightarrow> 0 \<le> round32 x"
  by (simp add: round32_def Let_def round_even_nonneg less_imp_le)

lemma round32_exact:
  assumes "x / pow2 (float_exponent x - 23) = of_int k"
  shows "round32 x = x"
proof -
  have "round32 x = of_int k * pow2 (float_exponent x - 23)"
    by (simp add: round32_def Let_def assms)
  also have "\<dots> = x"
    using assms pow2_pos [of "float_exponent x - 23"] by (simp add: field_simps)
  finally show ?thesis .
qed

lemma round32_0 [simp]: "round32 0 = 0"
  using round_even_of_int [of 0] by (simp add: round32_def Let_def)

lemma pow2_int_multiple:
  assumes "e \<le> 0"
  shows "\<exists>k. real_of_int n / pow2 e = of_int k"
proof -
  have "real_of_int n / pow2 e = of_int (n * 2 ^ nat (- e))"
  proof (cases "e = 0")
    case True
    then show ?thesis by simp
  next
    case False
    then show ?thesis
      using assms by (simp add: pow2_def)
  qed
  then show ?thesis ..
qed

lemma round32_of_int:
  assumes "\<bar>n\<bar> \<le> 2 ^ 24"
  shows "round32 (of_int n) = of_int n"
proof (cases "n = 0")
  case True
  then show ?thesis by simp
next
  case False
  define x where "x = real_of_int n"
  define e where "e = float_exponent x"
  have x1: "1 \<le> \<bar>x\<bar>"
    using False by (simp add: x_def flip: of_int_abs)
  have x24: "\<bar>x\<bar> \<le> 2 ^ 24"
  proof -
    have "real_of_int \<bar>n\<bar> \<le> real_of_int (2 ^ 24)"
      using assms by (intro of_int_le_iff [THEN iffD2])
    then show ?thesis by (simp add: x_def)
  qed
  have "pow2 (- 126) \<le> pow2 0"
    by (rule pow2_mono) simp
  then have lo: "pow2 (- 126) \<le> \<bar>x\<bar>"
    using x1 by simp
  have hi: "\<bar>x\<bar> < pow2 128"
    using x24 by (simp add: pow2_def)
  have bin: "pow2 e \<le> \<bar>x\<bar>" "\<bar>x\<bar> < pow2 (e + 1)"
    using float_exponent_binade [OF lo hi] by (simp_all add: e_def)
  have e24: "e \<le> 24"
  proof (rule ccontr)
    assume "\<not> e \<le> 24"
    then have "pow2 25 \<le> pow2 e"
      by (intro pow2_mono) simp
    then show False
      using bin(1) x24 by (simp add: pow2_def)
  qed
  have "\<exists>k. x / pow2 (e - 23) = of_int k"
  proof (cases "e \<le> 23")
    case True
    then show ?thesis
      unfolding x_def by (intro pow2_int_multiple) simp
  next
    case False
    then have e: "e = 24" using e24 by simp
    then have "\<bar>x\<bar> = 2 ^ 24"
      using bin(1) x24 by (simp add: pow2_def)
    then have "x = 2 ^ 24 \<or> x = - (2 ^ 24)"
      by (auto simp: abs_if split: if_splits)
    then have "x / pow2 (e - 23) = of_int (2 ^ 23) \<or> x / pow2 (e - 23) = of_int (- (2 ^ 23))"
      by (auto simp: e pow2_def)
    then show ?thesis by blast
  qed
  then obtain k where "x / pow2 (float_exponent x - 23) = of_int k"
    by (auto simp: e_def)
  from round32_exact [OF this] show ?thesis
    by (simp add: x_def)
qed

section \<open>The constants and the level of a band\<close>

lemma scale_down_numeral [simp]:
  "scale_down (numeral k) x = (if 2 \<le> x then 1 + scale_down (pred_numeral k) (x / 2) else 0)"
  by (simp add: numeral_eq_Suc)

lemma scale_up_numeral [simp]:
  "scale_up (numeral k) x = (if x < 1 then scale_up (pred_numeral k) (2 * x) - 1 else 0)"
  by (simp add: numeral_eq_Suc)

lemma min_auto_gain_eq: "min_auto_gain = 10737418 / 2 ^ 31"
  by (simp add: min_auto_gain_def round32_def float_exponent_def round_even_def pow2_def Let_def)

lemma decay_factor_eq: "decay_factor = 16726884 / 2 ^ 24"
  by (simp add: decay_factor_def round32_def float_exponent_def round_even_def pow2_def Let_def)

lemma full_scale_eq: "full_scale = 250"
  using round32_of_int [of 250] by (simp add: full_scale_def)

lemma round32_1 [simp]: "round32 1 = 1"
  using round32_of_int [of 1] by simp

lemma fdiv_self: "x \<noteq> 0 \<Longrightarrow> fdiv x x = 1"
  by (simp add: fdiv_def)







section \<open>Bounds on the gain update and the normalized output\<close>

lemma round32_upper:
  assumes "0 \<le> x" and "x \<le> b" and "pow2 (- 126) \<le> b"
  shows "round32 x \<le> b * (1 + pow2 (- 24))"
proof -
  have "max \<bar>x\<bar> (pow2 (- 126)) \<le> b"
    using assms by simp
  then have "max \<bar>x\<bar> (pow2 (- 126)) * pow2 (- 24) \<le> b * pow2 (- 24)"
    by (intro mult_right_mono) (simp_all add: less_imp_le)
  then have "\<bar>round32 x - x\<bar> \<le> b * pow2 (- 24)"
    by (rule order_trans [OF round32_error])
  then have "round32 x \<le> x + b * pow2 (- 24)"
    by simp
  then show ?thesis
    using assms(2) by (simp add: algebra_simps)
qed

lemma round32_lower:
  assumes "pow2 (- 126) \<le> x"
  shows "x * (1 - pow2 (- 24)) \<le> round32 x"
proof -
  have "0 < x"
    by (rule less_le_trans [OF pow2_pos assms])
  then have "max \<bar>x\<bar> (pow2 (- 126)) = x"
    using assms by simp
  then have "\<bar>round32 x - x\<bar> \<le> x * pow2 (- 24)"
    using round32_error [of x] by simp
  then have "x - x * pow2 (- 24) \<le> round32 x"
    by simp
  then show ?thesis
    by (simp add: algebra_simps)
qed

lemma pow2_minus_126_le: "pow2 (- 126) \<le> 1 / 1000"
  by (simp add: pow2_def)

lemma pow2_minus_24: "pow2 (- 24) = 1 / 16777216"
  by (simp add: pow2_def)

lemma min_auto_gain_pos: "0 < min_auto_gain" "1 / 250 \<le> min_auto_gain"
  by (simp_all add: min_auto_gain_eq)

text \<open>One decay step multiplies by a factor between 0.9969999 and 0.9970001.\<close>

lemma fmul_decay_bounds:
  assumes "min_auto_gain \<le> g"
  shows "g * (9969999 / 10000000) \<le> fmul g decay_factor"
    and "fmul g decay_factor \<le> g * (9970001 / 10000000)"
proof -
  define x where "x = g * decay_factor"
  have g: "1 / 250 \<le> g"
    using assms min_auto_gain_pos(2) by simp
  have x: "g * (99 / 100) \<le> x" "x = g * (16726884 / 16777216)"
    using g by (simp_all add: x_def decay_factor_eq)
  have lo: "pow2 (- 126) \<le> x"
    using pow2_minus_126_le x(1) g by simp
  have "0 \<le> x"
    using x(1) g by simp
  from round32_upper [OF this order_refl lo] round32_lower [OF lo]
  have "x * (1 - 1 / 16777216) \<le> round32 x" "round32 x \<le> x * (1 + 1 / 16777216)"
    by (simp_all add: pow2_minus_24)
  then show "g * (9969999 / 10000000) \<le> fmul g decay_factor"
    and "fmul g decay_factor \<le> g * (9970001 / 10000000)"
    using g by (simp_all add: fmul_def x_def [symmetric] x(2))
qed

lemma auto_gain_update_raise: "agl < level \<Longrightarrow> auto_gain_update level agl = level"
  by (simp add: auto_gain_update_def)

lemma auto_gain_update_decay:
  "\<not> agl < level \<Longrightarrow>
   auto_gain_update level agl = std_max_float min_auto_gain (fmul agl decay_factor)"
  by (simp add: auto_gain_update_def)

lemma auto_gain_update_ge_min: "min_auto_gain \<le> agl \<Longrightarrow> min_auto_gain \<le> auto_gain_update level agl"
  by (simp add: auto_gain_update_def std_max_float_def)

lemma auto_gain_update_decay_bounds:
  assumes "\<not> agl < level" and "min_auto_gain \<le> agl"
  shows "agl * (9969999 / 10000000) \<le> auto_gain_update level agl"
    and "auto_gain_update level agl \<le> agl"
proof -
  have g: "0 < agl"
    using assms(2) min_auto_gain_pos(1) by simp
  have b: "agl * (9969999 / 10000000) \<le> fmul agl decay_factor"
    "fmul agl decay_factor \<le> agl * (9970001 / 10000000)"
    using fmul_decay_bounds [OF assms(2)] by simp_all
  have "fmul agl decay_factor \<le> agl"
    using b(2) g by simp
  then show "auto_gain_update level agl \<le> agl"
    using assms by (simp add: auto_gain_update_decay std_max_float_def)
  show "agl * (9969999 / 10000000) \<le> auto_gain_update level agl"
    using assms b(1) by (simp add: auto_gain_update_decay std_max_float_def)
qed


lemma normalized_raise:
  assumes "agl < level" and "min_auto_gain \<le> agl"
  shows "normalized level agl = 1"
proof -
  have "level \<noteq> 0"
    using assms min_auto_gain_pos(1) by simp
  then show ?thesis
    using assms(1) by (simp add: normalized_def auto_gain_update_raise fdiv_self)
qed

lemma normalized_decay:
  assumes "\<not> agl < level" and "0 \<le> level" and "min_auto_gain \<le> agl"
  shows "0 \<le> normalized level agl" and "normalized level agl \<le> normalized_bound"
proof -
  define new where "new = auto_gain_update level agl"
  have g: "0 < agl"
    using assms(3) min_auto_gain_pos(1) by simp
  have new: "agl * (9969999 / 10000000) \<le> new"
    using auto_gain_update_decay_bounds(1) [OF assms(1,3)] by (simp add: new_def)
  have "0 < agl * (9969999 / 10000000)"
    using g by simp
  then have pos: "0 < new"
    using new by (rule less_le_trans)
  have x0: "0 \<le> level / new"
    using assms(2) pos by simp
  show "0 \<le> normalized level agl"
    using round32_nonneg [OF x0] by (simp add: normalized_def fdiv_def new_def)
  have "level \<le> agl"
    using assms(1) by simp
  then have "level \<le> 10000000 / 9969999 * new"
    using new by linarith
  then have x1: "level / new \<le> 10000000 / 9969999"
    using pos by (simp add: pos_divide_le_eq)
  have "pow2 (- 126) \<le> 10000000 / 9969999"
    using pow2_minus_126_le by simp
  from round32_upper [OF x0 x1 this]
  have "round32 (level / new) \<le> 10000000 / 9969999 * (1 + 1 / 16777216)"
    by (simp add: pow2_minus_24)
  also have "\<dots> \<le> normalized_bound"
    by (simp add: normalized_bound_def)
  finally show "normalized level agl \<le> normalized_bound"
    by (simp add: normalized_def fdiv_def new_def)
qed



section \<open>Two frames with the same spectrum\<close>

lemma fmul_10_decay: "fmul 10 decay_factor = 10454302 / 2 ^ 20"
  by (simp add: fmul_def decay_factor_eq round32_def float_exponent_def round_even_def pow2_def Let_def)

lemma auto_gain_update_10_10: "auto_gain_update 10 10 = 10454302 / 2 ^ 20"
  by (simp add: auto_gain_update_def std_max_float_def fmul_10_decay min_auto_gain_eq)

lemma normalized_10_10: "normalized 10 10 = 8413850 / 2 ^ 23"
  by (simp add: normalized_def auto_gain_update_10_10 fdiv_def round32_def float_exponent_def
      round_even_def pow2_def Let_def)

lemma green_10_10: "green 10 10 = 250"
  by (simp add: green_def normalized_10_10 full_scale_eq fmul_def int_of_float_def round32_def
      float_exponent_def round_even_def pow2_def Let_def)

lemma green_raise: 
  assumes "agl < level" and "min_auto_gain \<le> agl"
  shows "green level agl = 250"
  using round32_of_int [of 250]
  by (simp add: green_def normalized_raise [OF assms] full_scale_eq fmul_def int_of_float_def)

lemma auto_gain_update_10_first: "auto_gain_update 10 min_auto_gain = 10"
  by (simp add: auto_gain_update_def min_auto_gain_eq)

lemma bin_energy_16: "bin_energy (raw_min_value + 10) = 10"
  by (simp add: bin_energy_def raw_min_value_def std_max_short_def float_of_short_def
      word_sless_alt)

lemma band_level_single:
  assumes "i < 60" and "frequency_bins_count ! i = 1" and "length buf = nat fft_size"
    and "buf ! nat (band_start i) = raw_min_value + 10"
  shows "band_level buf i = 10"
proof -
  have "band_start i + frequency_bins_count ! i \<le> 456"
    using band_start_le [of "Suc i"] assms(1) by (simp add: band_start_Suc)
  then have "nat (band_start i) < length buf"
    using assms(2,3) band_start_nonneg [of i] by (simp add: fft_size_def)
  then have "band_bins buf i = [raw_min_value + 10]"
    using assms(2,4) by (simp add: band_bins_def take_Suc_conv_app_nth Cons_nth_drop_Suc [symmetric]
        hd_drop_conv_nth take_Suc)
  then show ?thesis
    using round32_of_int [of 10] by (simp add: band_level_def bin_energy_16 fadd_def)
qed

lemma pixels_loop_band:
  assumes "length (deref_buffer (read_buffer s) s) = nat fft_size"
    and "length (auto_gain_level s) = nat NUMPIXELS" and "length (pixels s) = nat NUMPIXELS"
  shows "i < 60 \<Longrightarrow> auto_gain_level (pixels_loop 0 1 s) ! i =
           auto_gain_update (band_level (deref_buffer (read_buffer s) s) i) (auto_gain_level s ! i)"
    and "i < 60 \<Longrightarrow> pixels (pixels_loop 0 1 s) ! i =
           Color 0 (green (band_level (deref_buffer (read_buffer s) s) i) (auto_gain_level s ! i)) 0"
    and "deref_buffer (read_buffer (pixels_loop 0 1 s)) (pixels_loop 0 1 s) =
           deref_buffer (read_buffer s) s"
    and "length (auto_gain_level (pixels_loop 0 1 s)) = nat NUMPIXELS"
    and "length (pixels (pixels_loop 0 1 s)) = nat NUMPIXELS"
proof -
  have h: "456 \<le> length (deref_buffer (read_buffer s) s)"
    "length (auto_gain_level s) = 60" "length (pixels s) = 60"
    using assms by (simp_all add: fft_size_def NUMPIXELS_def)
  note eq = pixels_loop_eq [OF h]
  show "i < 60 \<Longrightarrow> auto_gain_level (pixels_loop 0 1 s) ! i =
           auto_gain_update (band_level (deref_buffer (read_buffer s) s) i) (auto_gain_level s ! i)"
    by (simp add: eq)
  show "i < 60 \<Longrightarrow> pixels (pixels_loop 0 1 s) ! i =
           Color 0 (green (band_level (deref_buffer (read_buffer s) s) i) (auto_gain_level s ! i)) 0"
    by (simp add: eq)
  show "deref_buffer (read_buffer (pixels_loop 0 1 s)) (pixels_loop 0 1 s) =
           deref_buffer (read_buffer s) s"
    by (simp add: pixels_loop_frame)
  show "length (auto_gain_level (pixels_loop 0 1 s)) = nat NUMPIXELS"
    by (simp add: eq NUMPIXELS_def)
  show "length (pixels (pixels_loop 0 1 s)) = nat NUMPIXELS"
    by (simp add: eq NUMPIXELS_def)
qed

lemma normalized_10_first: "agl < 10 \<Longrightarrow> normalized 10 agl = 1"
  by (simp add: normalized_def auto_gain_update_raise fdiv_self)

lemma green_10_first: "agl < 10 \<Longrightarrow> green 10 agl = 250"
  using round32_of_int [of 250]
  by (simp add: green_def normalized_10_first full_scale_eq fmul_def int_of_float_def)

lemma two_equal_frames:
  assumes band: "i < 60" "frequency_bins_count ! i = 1"
    and buf: "length (deref_buffer (read_buffer s) s) = nat fft_size"
      "deref_buffer (read_buffer s) s ! nat (band_start i) = raw_min_value + 10"
    and lens: "length (auto_gain_level s) = nat NUMPIXELS" "length (pixels s) = nat NUMPIXELS"
    and first: "auto_gain_level s ! i < 10"
  shows "band_level (deref_buffer (read_buffer s) s) i = 10"
    and "auto_gain_level (pixels_loop 0 1 s) ! i = 10"
    and "normalized 10 (auto_gain_level s ! i) = 1"
    and "pixels (pixels_loop 0 1 s) ! i = (0, 250, 0)"
    and "auto_gain_level (pixels_loop 0 1 (pixels_loop 0 1 s)) ! i = 10454302 / 2 ^ 20"
    and "normalized 10 (auto_gain_level (pixels_loop 0 1 s) ! i) = 8413850 / 2 ^ 23"
    and "pixels (pixels_loop 0 1 (pixels_loop 0 1 s)) ! i = (0, 250, 0)"
proof -
  define s1 where "s1 = pixels_loop 0 1 s"
  note one = pixels_loop_band [OF buf(1) lens]
  show lv: "band_level (deref_buffer (read_buffer s) s) i = 10"
    by (rule band_level_single [OF band buf])
  show g1: "auto_gain_level (pixels_loop 0 1 s) ! i = 10"
    using one(1) [OF band(1)] first by (simp add: lv auto_gain_update_raise)
  show "normalized 10 (auto_gain_level s ! i) = 1"
    by (rule normalized_10_first [OF first])
  show "pixels (pixels_loop 0 1 s) ! i = (0, 250, 0)"
    using one(2) [OF band(1)] by (simp add: lv green_10_first [OF first] Color_def)
  have buf1: "length (deref_buffer (read_buffer s1) s1) = nat fft_size"
    using one(3) buf(1) by (simp add: s1_def)
  note two = pixels_loop_band [OF buf1, unfolded s1_def, OF one(4,5)]
  show "auto_gain_level (pixels_loop 0 1 (pixels_loop 0 1 s)) ! i = 10454302 / 2 ^ 20"
    using two(1) [OF band(1)] by (simp add: pixels_loop_frame lv g1 auto_gain_update_10_10)
  show "normalized 10 (auto_gain_level (pixels_loop 0 1 s) ! i) = 8413850 / 2 ^ 23"
    by (simp add: g1 normalized_10_10)
  show "pixels (pixels_loop 0 1 (pixels_loop 0 1 s)) ! i = (0, 250, 0)"
    using two(2) [OF band(1)] by (simp add: pixels_loop_frame lv g1 green_10_10 Color_def)
qed

text \<open>
  Claim C7, amended.  A band of one bin whose bin holds \<^verbatim>\<open>raw_min_value + 10\<close> on two
  consecutive frames, and whose gain level is below 10 before the first (as it is after
  \<^verbatim>\<open>setup\<close>): the first frame gives raw energy exactly 10, gain level 10 and normalized
  output 1.0 (green 250); on the second frame the level equals the gain level, the
  decay branch runs, and the gain level becomes \<open>10 * 0.997f\<close> rounded to
  \<^verbatim>\<open>float\<close>, \<open>10454302 / 2 ^ 20\<close> (about 9.97); the normalized output is
  \<open>8413850 / 2 ^ 23\<close> (about 1.003) and the green component is 250 again.
\<close>

theorem scenario_two_frames:
  assumes "i < 60" and "frequency_bins_count ! i = 1"
    and "length (deref_buffer (read_buffer s) s) = nat fft_size"
    and "deref_buffer (read_buffer s) s ! nat (band_start i) = raw_min_value + 10"
    and "length (auto_gain_level s) = nat NUMPIXELS" and "length (pixels s) = nat NUMPIXELS"
    and "auto_gain_level s ! i < 10"
  shows "band_level (deref_buffer (read_buffer s) s) i = 10 \<and>
         auto_gain_level (pixels_loop 0 1 s) ! i = 10 \<and>
         normalized 10 (auto_gain_level s ! i) = 1 \<and>
         pixels (pixels_loop 0 1 s) ! i = (0, 250, 0) \<and>
         auto_gain_level (pixels_loop 0 1 (pixels_loop 0 1 s)) ! i = 10454302 / 2 ^ 20 \<and>
         normalized 10 (auto_gain_level (pixels_loop 0 1 s) ! i) = 8413850 / 2 ^ 23 \<and>
         pixels (pixels_loop 0 1 (pixels_loop 0 1 s)) ! i = (0, 250, 0)"
  using two_equal_frames [OF assms] by simp

lemma scenario_state:
  fixes s0 defines "s0 \<equiv> initial_sketch\<lparr>audio_buffer1 := 0 # 16 # replicate 1022 0\<rparr>"
  shows "(0 :: nat) < 60" "frequency_bins_count ! 0 = 1"
    "length (deref_buffer (read_buffer s0) s0) = nat fft_size"
    "deref_buffer (read_buffer s0) s0 ! nat (band_start 0) = raw_min_value + 10"
    "length (auto_gain_level s0) = nat NUMPIXELS" "length (pixels s0) = nat NUMPIXELS"
    "auto_gain_level s0 ! 0 < 10"
  by (simp_all add: s0_def initial_sketch_def setup_sketch_def globals_def fft_size_def
      NUMPIXELS_def frequency_bins_count_def band_start_0 raw_min_value_def min_auto_gain_eq)

theorem scenario_two_frames_witness:
  "(0 :: nat) < 60 \<and> frequency_bins_count ! 0 = 1 \<and>
   deref_buffer (read_buffer (initial_sketch\<lparr>audio_buffer1 := 0 # 16 # replicate 1022 0\<rparr>))
     (initial_sketch\<lparr>audio_buffer1 := 0 # 16 # replicate 1022 0\<rparr>) ! nat (band_start 0) =
     raw_min_value + 10 \<and>
   auto_gain_level (initial_sketch\<lparr>audio_buffer1 := 0 # 16 # replicate 1022 0\<rparr>) ! 0 < 10 \<and>
   auto_gain_level (pixels_loop 0 1
     (initial_sketch\<lparr>audio_buffer1 := 0 # 16 # replicate 1022 0\<rparr>)) ! 0 = 10 \<and>
   auto_gain_level (pixels_loop 0 1 (pixels_loop 0 1
     (initial_sketch\<lparr>audio_buffer1 := 0 # 16 # replicate 1022 0\<rparr>))) ! 0 = 10454302 / 2 ^ 20"
  using scenario_two_frames [OF scenario_state] scenario_state(2,4,7)
  by simp

text \<open>
  Claim C7, as stated, fails: on the second frame the gain level does not stay 10.
\<close>

theorem scenario_second_frame_decays:
  "\<not> auto_gain_level (pixels_loop 0 1 (pixels_loop 0 1
       (initial_sketch\<lparr>audio_buffer1 := 0 # 16 # replicate 1022 0\<rparr>))) ! 0 = 10"
  using two_equal_frames(5) [OF scenario_state] by simp

section \<open>When the normalized output exceeds 1\<close>

lemma max_level_ge_10: "10 \<le> max_level"
  by (simp add: max_level_def)

text \<open>
  Claim C8, amended.  For a raw energy and a gain level in the range the program keeps
  them in: in a frame in which the gain level is raised (the raw energy exceeds the
  previous gain level) the normalized output is exactly 1; in every other frame the
  gain level does not grow and the normalized output is at most \<open>1 / 0.997\<close> up to
  the rounding of \<^verbatim>\<open>float\<close> (a relative error of \<open>2 ^ -22\<close>).  So the normalized output exceeds 1 only in frames
  in which the gain level was not raised.
\<close>

theorem normalized_above_1_only_in_decay:
  assumes "0 \<le> level" and "level \<le> max_level"
    and "min_auto_gain \<le> agl" and "agl \<le> max_level"
  shows "(agl < level \<longrightarrow> auto_gain_update level agl = level \<and> normalized level agl = 1) \<and>
         (\<not> agl < level \<longrightarrow>
            auto_gain_update level agl \<le> agl \<and> normalized level agl \<le> normalized_bound) \<and>
         (1 < normalized level agl \<longrightarrow> \<not> agl < level)"
proof (intro conjI impI)
  assume r: "agl < level"
  show "auto_gain_update level agl = level"
    by (rule auto_gain_update_raise [OF r])
  show "normalized level agl = 1"
    by (rule normalized_raise [OF r assms(3)])
next
  assume d: "\<not> agl < level"
  show "auto_gain_update level agl \<le> agl"
    by (rule auto_gain_update_decay_bounds(2) [OF d assms(3)])
  show "normalized level agl \<le> normalized_bound"
    by (rule normalized_decay(2) [OF d assms(1,3)])
next
  assume "1 < normalized level agl"
  then show "\<not> agl < level"
    using normalized_raise [OF _ assms(3), of level] by auto
qed

theorem normalized_above_1_only_in_decay_witness:
  "(0 :: real) \<le> 10 \<and> 10 \<le> max_level \<and> min_auto_gain \<le> 10 \<and>
   \<not> (10 :: real) < 10 \<and> auto_gain_update 10 10 \<le> 10 \<and>
   1 < normalized 10 10 \<and> normalized 10 10 \<le> normalized_bound \<and>
   min_auto_gain < 10 \<and> auto_gain_update 10 min_auto_gain = 10 \<and>
   normalized 10 min_auto_gain = 1"
proof -
  have m: "min_auto_gain \<le> 10" "min_auto_gain < 10" "min_auto_gain \<le> max_level"
    by (simp_all add: min_auto_gain_eq max_level_def)
  have one: "1 < normalized 10 10"
    by (simp add: normalized_10_10)
  show ?thesis
    using normalized_above_1_only_in_decay [of 10 10, OF _ max_level_ge_10 m(1) max_level_ge_10]
      normalized_above_1_only_in_decay [of 10 min_auto_gain, OF _ max_level_ge_10 order_refl m(3)]
      m one max_level_ge_10
    by simp
qed

text \<open>
  Claim C8, as stated, fails: in the frame after the gain level reached 10, the same
  raw energy 10 does not raise the gain level, and the normalized output exceeds 1.
\<close>

theorem normalized_above_1_in_decay_frame:
  "\<not> auto_gain_update 10 min_auto_gain < 10 \<and>
   1 < normalized 10 (auto_gain_update 10 min_auto_gain)"
  by (simp add: auto_gain_update_10_first normalized_10_10)

section \<open>The range of the normalized output and of the green component\<close>








section \<open>The gain level of a band over a sequence of frames\<close>

lemma gain_after_snoc [simp]:
  "gain_after (levels @ [level]) agl = auto_gain_update level (gain_after levels agl)"
  by (simp add: gain_after_def)

lemma gain_after_Nil [simp]: "gain_after [] agl = agl"
  by (simp add: gain_after_def)

lemma gain_after_single [simp]: "gain_after [level] agl = auto_gain_update level agl"
  by (simp add: gain_after_def)

lemma gain_after_ge_min:
  "min_auto_gain \<le> agl \<Longrightarrow> min_auto_gain \<le> gain_after levels agl"
  by (induction levels rule: rev_induct) (simp_all add: auto_gain_update_ge_min)

lemma gain_after_increasing:
  assumes "sorted_wrt (<) (agl # levels)" and "k < length levels"
  shows "gain_after (take (Suc k) levels) agl = levels ! k"
  using assms(2)
proof (induction k)
  case 0
  then have "agl < levels ! 0"
    using assms(1) by (cases levels) simp_all
  then show ?case
    using 0 by (simp add: take_Suc_conv_app_nth auto_gain_update_raise)
next
  case (Suc k)
  then have k: "k < length levels" by simp
  have "sorted_wrt (<) levels"
    using assms(1) by simp
  then have "levels ! k < levels ! Suc k"
    using Suc.prems by (simp add: sorted_wrt_nth_less)
  then show ?case
    using Suc.IH [OF k] Suc.prems
    by (simp add: take_Suc_conv_app_nth [of "Suc k"] auto_gain_update_raise)
qed

lemma replicate_Suc_snoc: "replicate (Suc n) x = replicate n x @ [x]"
  by (simp add: replicate_append_same)

lemma gain_after_silence_step:
  assumes "min_auto_gain \<le> agl"
  shows "gain_after (replicate (Suc n) 0) agl =
     std_max_float min_auto_gain (fmul (gain_after (replicate n 0) agl) decay_factor)"
proof -
  have "0 < gain_after (replicate n 0) agl"
    using gain_after_ge_min [OF assms, of "replicate n 0"] min_auto_gain_pos(1) by simp
  then have "\<not> gain_after (replicate n 0) agl < 0"
    by simp
  then show ?thesis
    unfolding replicate_Suc_snoc gain_after_snoc by (rule auto_gain_update_decay)
qed

lemma gain_after_silence_bounds:
  assumes "min_auto_gain \<le> agl"
  shows "agl * (9969999 / 10000000) ^ n \<le> gain_after (replicate n 0) agl \<and>
         gain_after (replicate n 0) agl \<le> max min_auto_gain (agl * (9970001 / 10000000) ^ n)"
proof (induction n)
  case 0
  then show ?case by simp
next
  case (Suc n)
  define g where "g = gain_after (replicate n 0) agl"
  have gmin: "min_auto_gain \<le> g"
    unfolding g_def by (rule gain_after_ge_min [OF assms])
  have step: "gain_after (replicate (Suc n) 0) agl = std_max_float min_auto_gain (fmul g decay_factor)"
    unfolding g_def by (rule gain_after_silence_step [OF assms])
  note b = fmul_decay_bounds [OF gmin]
  have lo: "agl * (9969999 / 10000000) ^ Suc n \<le> fmul g decay_factor"
  proof -
    have "agl * (9969999 / 10000000) ^ n * (9969999 / 10000000) \<le> g * (9969999 / 10000000)"
      using Suc.IH by (intro mult_right_mono) (simp_all add: g_def)
    then show ?thesis
      using b(1) by (simp add: mult.assoc mult.commute [of "9969999 / 10000000"])
  qed
  have hi: "fmul g decay_factor \<le> max min_auto_gain (agl * (9970001 / 10000000) ^ Suc n)"
  proof -
    have "g * (9970001 / 10000000) \<le>
        max min_auto_gain (agl * (9970001 / 10000000) ^ n) * (9970001 / 10000000)"
      using Suc.IH by (intro mult_right_mono) (simp_all add: g_def)
    also have "\<dots> \<le> max min_auto_gain (agl * (9970001 / 10000000) ^ Suc n)"
      using min_auto_gain_pos(1) by (auto simp: max_def not_le mult.assoc)
    finally show ?thesis
      using b(2) by simp
  qed
  show ?case
    using lo hi unfolding step by (auto simp: std_max_float_def)
qed

lemma gain_after_silence_initial: "gain_after (replicate n 0) min_auto_gain = min_auto_gain"
proof (rule antisym)
  have "min_auto_gain * (9970001 / 10000000) ^ n \<le> min_auto_gain * 1"
    using min_auto_gain_pos(1) by (intro mult_left_mono power_le_one) simp_all
  then have "max min_auto_gain (min_auto_gain * (9970001 / 10000000) ^ n) = min_auto_gain"
    by simp
  then show "gain_after (replicate n 0) min_auto_gain \<le> min_auto_gain"
    using gain_after_silence_bounds [OF order_refl, of n] by simp
  show "min_auto_gain \<le> gain_after (replicate n 0) min_auto_gain"
    by (rule gain_after_ge_min [OF order_refl])
qed

text \<open>
  Claim C6, amended.  (a) From the initialized value \<^verbatim>\<open>min_auto_gain\<close>, the gain level
  of a band is never below \<^verbatim>\<open>min_auto_gain\<close>, whatever the raw energies of the frames.
  (b) When the gain level before the first frame followed by the raw energies of the
  frames is strictly increasing, the gain level after each frame equals the raw energy
  of that frame.  (c) With the raw energy held at 0, each frame replaces the gain level
  (at least \<^verbatim>\<open>min_auto_gain\<close>) by the larger of \<^verbatim>\<open>min_auto_gain\<close> and the gain level
  times \<^verbatim>\<open>0.997f\<close> rounded to \<^verbatim>\<open>float\<close>: after \<open>n\<close> frames it lies between the
  geometric sequences of factors 0.9969999 and 0.9970001 (the latter limited below by
  \<^verbatim>\<open>min_auto_gain\<close>), it is never below \<^verbatim>\<open>min_auto_gain\<close>, and from the initialized
  value it stays \<^verbatim>\<open>min_auto_gain\<close>.
\<close>

theorem gain_level_over_frames:
  "min_auto_gain \<le> gain_after levels min_auto_gain \<and>
   (sorted_wrt (<) (agl # levels) \<longrightarrow>
      map (\<lambda>k. gain_after (take (Suc k) levels) agl) [0..<length levels] = levels) \<and>
   (min_auto_gain \<le> agl \<and> agl \<le> max_level \<longrightarrow>
      gain_after (replicate (Suc n) 0) agl =
        std_max_float min_auto_gain (fmul (gain_after (replicate n 0) agl) decay_factor) \<and>
      min_auto_gain \<le> gain_after (replicate n 0) agl \<and>
      agl * (9969999 / 10000000) ^ n \<le> gain_after (replicate n 0) agl \<and>
      gain_after (replicate n 0) agl \<le> max min_auto_gain (agl * (9970001 / 10000000) ^ n)) \<and>
   gain_after (replicate n 0) min_auto_gain = min_auto_gain"
proof (intro conjI impI)
  show "min_auto_gain \<le> gain_after levels min_auto_gain"
    by (rule gain_after_ge_min [OF order_refl])
next
  assume inc: "sorted_wrt (<) (agl # levels)"
  show "map (\<lambda>k. gain_after (take (Suc k) levels) agl) [0..<length levels] = levels"
    by (rule nth_equalityI) (simp_all add: gain_after_increasing [OF inc])
next
  assume a: "min_auto_gain \<le> agl \<and> agl \<le> max_level"
  then have m: "min_auto_gain \<le> agl" by simp
  show "gain_after (replicate (Suc n) 0) agl =
      std_max_float min_auto_gain (fmul (gain_after (replicate n 0) agl) decay_factor)"
    by (rule gain_after_silence_step [OF m])
  show "min_auto_gain \<le> gain_after (replicate n 0) agl"
    by (rule gain_after_ge_min [OF m])
  show "agl * (9969999 / 10000000) ^ n \<le> gain_after (replicate n 0) agl"
    using gain_after_silence_bounds [OF m, of n] by simp
  show "gain_after (replicate n 0) agl \<le> max min_auto_gain (agl * (9970001 / 10000000) ^ n)"
    using gain_after_silence_bounds [OF m, of n] by simp
next
  show "gain_after (replicate n 0) min_auto_gain = min_auto_gain"
    by (rule gain_after_silence_initial)
qed

theorem gain_level_over_frames_witness:
  "sorted_wrt (<) (min_auto_gain # [1, 2, 3]) \<and>
   gain_after [1] min_auto_gain = 1 \<and> gain_after [1, 2] min_auto_gain = 2 \<and>
   gain_after [1, 2, 3] min_auto_gain = 3 \<and>
   min_auto_gain \<le> 10 \<and> 10 \<le> max_level \<and>
   gain_after (replicate (Suc 0) 0) 10 = 10454302 / 2 ^ 20 \<and>
   min_auto_gain \<le> gain_after (replicate (Suc 0) 0) 10"
proof -
  have inc: "sorted_wrt (<) (min_auto_gain # [1, 2, 3])"
    by (simp add: min_auto_gain_eq)
  have m: "min_auto_gain \<le> 10 \<and> 10 \<le> max_level"
    by (simp add: min_auto_gain_eq max_level_def)
  have up: "[0..<length [1 :: real, 2, 3]] = [0, 1, 2]"
    by (simp add: upt_rec)
  have d: "std_max_float min_auto_gain (fmul 10 decay_factor) = 10454302 / 2 ^ 20"
    by (simp add: std_max_float_def fmul_10_decay min_auto_gain_eq)
  show ?thesis
    using gain_level_over_frames [of "[1, 2, 3]" min_auto_gain 0]
      gain_level_over_frames [of "[]" 10 0] gain_level_over_frames [of "[]" 10 1] inc m
    unfolding up by (simp add: d)
qed

text \<open>
  Claim C6, as stated, fails in part (b): the raw energies 0, 1 are strictly
  increasing, but after the first frame the gain level is \<^verbatim>\<open>min_auto_gain\<close>, not 0.
\<close>

theorem gain_level_not_tracking_silence:
  "sorted_wrt (<) [0 :: real, 1] \<and> gain_after [0] min_auto_gain = min_auto_gain \<and>
   \<not> gain_after (take 1 [0, 1]) min_auto_gain = [0, 1] ! 0"
  using gain_after_silence_initial [of 1] min_auto_gain_pos(1) by simp

section \<open>Which bins a band sums in one pass of the main loop\<close>

text \<open>
  In \<^verbatim>\<open>loop\<close> the pixel loop runs on the block that \<^verbatim>\<open>RemoveDCBias\<close> and then
  \<^verbatim>\<open>ZeroFFT\<close> have rewritten in place, from \<^verbatim>\<open>int fft_offset = 1\<close>.
\<close>

lemma process_block_pixels_loop:
  "\<exists>s3. process_block ZeroFFT s = pixels_loop 0 1 s3 \<and>
      deref_buffer (read_buffer s3) s3 = ZeroFFT (RemoveDCBias (deref_buffer (read_buffer s) s)) \<and>
      auto_gain_level s3 = auto_gain_level s \<and> pixels s3 = pixels s"
  unfolding process_block_def Let_def by (intro exI conjI, rule refl) simp_all

lemma auto_gain_update_0_first: "auto_gain_update 0 min_auto_gain = min_auto_gain"
proof (rule antisym)
  have n: "\<not> min_auto_gain < 0"
    using min_auto_gain_pos(1) by simp
  show "auto_gain_update 0 min_auto_gain \<le> min_auto_gain"
    by (rule auto_gain_update_decay_bounds(2) [OF n order_refl])
  show "min_auto_gain \<le> auto_gain_update 0 min_auto_gain"
    by (rule auto_gain_update_ge_min [OF order_refl])
qed

lemma RemoveDCBias_two_bins:
  "RemoveDCBias (106 # 16 # replicate 1022 0) = 106 # 16 # replicate 1022 0"
proof -
  let ?d = "106 # 16 # replicate 1022 (0 :: short)"
  have len: "length ?d = nat fft_size"
    by (simp add: fft_size_def)
  have sum: "RemoveDCBias_sum ?d = 122"
    by (simp add: RemoveDCBias_sum_eq [OF len] sum_list_replicate)
  have avg: "int32 (122 sdiv fft_size) = 0"
    by (simp add: fft_size_def int32_def signed_divide_int_def)
  show ?thesis
    by (simp add: RemoveDCBias_eq [OF len] sum avg map_idI)
qed

text \<open>
  Claim C4, as stated, fails: the spans of the 60 bands sum to 455, not to
  \<open>fft_size / 2 - 1 = 511\<close>.
\<close>

theorem band_span_sum_not_511:
  "sum_list frequency_bins_count = 455 \<and> fft_size div 2 - 1 = 511 \<and>
   sum_list frequency_bins_count \<noteq> fft_size div 2 - 1"
  by (simp add: sum_frequency_bins_count fft_size_def)

text \<open>
  Claim C4, amended.  Let \<open>spectrum\<close> be the block as the pixel loop of \<^verbatim>\<open>loop\<close> finds
  it: the block read, after \<^verbatim>\<open>RemoveDCBias\<close> and a transform \<^verbatim>\<open>ZeroFFT\<close> that keeps its
  length.  The spans of the 60 bands sum to 455.  The slices of bins that one pass of
  \<^verbatim>\<open>loop\<close> sums for the bands, put one after the other in band order, are exactly bins
  1 to 455 of \<open>spectrum\<close>, and the slice of band \<open>i\<close> has \<^verbatim>\<open>frequency_bins_count[i]\<close>
  bins; so the slices are contiguous, disjoint, in order, and start at bin 1.  The gain
  and the colour the pass leaves for band \<open>i\<close> are those computed from the sum over that
  slice.
\<close>

theorem band_slices:
  assumes "\<And>b. length (ZeroFFT b) = length b"
    and "length (deref_buffer (read_buffer s) s) = nat fft_size"
    and "length (auto_gain_level s) = nat NUMPIXELS" and "length (pixels s) = nat NUMPIXELS"
    and "spectrum = ZeroFFT (RemoveDCBias (deref_buffer (read_buffer s) s))"
  shows "sum_list frequency_bins_count = 455 \<and>
     concat (map (band_bins spectrum) [0..<nat NUMPIXELS]) = take 455 (drop 1 spectrum) \<and>
     map (\<lambda>i. length (band_bins spectrum i)) [0..<nat NUMPIXELS] = map nat frequency_bins_count \<and>
     auto_gain_level (process_block ZeroFFT s) =
       map (\<lambda>i. auto_gain_update (band_level spectrum i) (auto_gain_level s ! i))
         [0..<nat NUMPIXELS] \<and>
     pixels (process_block ZeroFFT s) =
       map (\<lambda>i. Color 0 (green (band_level spectrum i) (auto_gain_level s ! i)) 0)
         [0..<nat NUMPIXELS]"
proof -
  obtain s3 where s3: "process_block ZeroFFT s = pixels_loop 0 1 s3"
    "deref_buffer (read_buffer s3) s3 = spectrum"
    "auto_gain_level s3 = auto_gain_level s" "pixels s3 = pixels s"
    using process_block_pixels_loop [of ZeroFFT s] assms(5) by auto
  have len: "length (deref_buffer (read_buffer s3) s3) = nat fft_size"
    using assms(1,2) by (simp add: s3(2) assms(5) length_RemoveDCBias)
  have a: "length (auto_gain_level s3) = nat NUMPIXELS" "length (pixels s3) = nat NUMPIXELS"
    using assms(3,4) by (simp_all add: s3)
  have h: "456 \<le> length (deref_buffer (read_buffer s3) s3)"
    "length (auto_gain_level s3) = 60" "length (pixels s3) = 60"
    using len a by (simp_all add: fft_size_def NUMPIXELS_def)
  have "pixels (pixels_loop 0 1 s3) =
       map (\<lambda>i. Color 0 (green (band_level spectrum i) (auto_gain_level s ! i)) 0)
         [0..<nat NUMPIXELS]"
    by (simp add: pixels_loop_eq [OF h] s3 NUMPIXELS_def)
  then show ?thesis
    using pixels_loop_slices [OF len a] by (simp add: s3)
qed

text \<open>
  A block whose bin 0 holds 106 and whose bin 1 holds 16, with an identity transform:
  band 0 sums bin 1 alone (its level is \<open>16 - 6 = 10\<close>, and its gain becomes 10), band 1
  sums bin 2 alone, and bin 0 is in no band.
\<close>

theorem band_slices_witness:
  "length (deref_buffer (read_buffer (initial_sketch\<lparr>audio_buffer1 := 106 # 16 # replicate 1022 0\<rparr>))
      (initial_sketch\<lparr>audio_buffer1 := 106 # 16 # replicate 1022 0\<rparr>)) = nat fft_size \<and>
   length (auto_gain_level (initial_sketch\<lparr>audio_buffer1 := 106 # 16 # replicate 1022 0\<rparr>))
     = nat NUMPIXELS \<and>
   length (pixels (initial_sketch\<lparr>audio_buffer1 := 106 # 16 # replicate 1022 0\<rparr>)) = nat NUMPIXELS \<and>
   RemoveDCBias (106 # 16 # replicate 1022 0) = 106 # 16 # replicate 1022 0 \<and>
   band_bins (106 # 16 # replicate 1022 0) 0 = [16] \<and>
   band_bins (106 # 16 # replicate 1022 0) 1 = [0] \<and>
   auto_gain_level (process_block (\<lambda>b. b)
      (initial_sketch\<lparr>audio_buffer1 := 106 # 16 # replicate 1022 0\<rparr>)) ! 0 = 10 \<and>
   auto_gain_level (process_block (\<lambda>b. b)
      (initial_sketch\<lparr>audio_buffer1 := 106 # 16 # replicate 1022 0\<rparr>)) ! 1 = min_auto_gain"
proof -
  define d :: "short list" where "d = 106 # 16 # replicate 1022 0"
  define s where "s = initial_sketch\<lparr>audio_buffer1 := d\<rparr>"
  have buf: "deref_buffer (read_buffer s) s = d"
    by (simp add: s_def initial_sketch_def setup_sketch_def globals_def)
  have len: "length (deref_buffer (read_buffer s) s) = nat fft_size"
    by (simp add: buf d_def fft_size_def)
  have a: "length (auto_gain_level s) = nat NUMPIXELS" "length (pixels s) = nat NUMPIXELS"
    by (simp_all add: s_def initial_sketch_def setup_sketch_def globals_def NUMPIXELS_def)
  have g: "auto_gain_level s ! 0 = min_auto_gain" "auto_gain_level s ! Suc 0 = min_auto_gain"
    by (simp_all add: s_def initial_sketch_def setup_sketch_def globals_def NUMPIXELS_def)
  have r: "RemoveDCBias d = d"
    unfolding d_def by (rule RemoveDCBias_two_bins)
  have sp: "d = (\<lambda>b. b) (RemoveDCBias (deref_buffer (read_buffer s) s))"
    by (simp add: buf r)
  have b0: "band_bins d 0 = [16]"
    by (simp add: band_bins_def band_start_0 frequency_bins_count_def d_def)
  have b1: "band_bins d (Suc 0) = [0]"
    by (simp add: band_bins_def band_start_def frequency_bins_count_def d_def)
  have l0: "band_level d 0 = 10"
    using round32_of_int [of 10] bin_energy_16
    by (simp add: band_level_def b0 fadd_def raw_min_value_def)
  have l1: "band_level d (Suc 0) = 0"
    unfolding band_level_def b1
    by (simp add: fadd_def bin_energy_def round32_0 std_max_short_def raw_min_value_def
        float_of_short_def word_sless_alt)
  have "auto_gain_level (process_block (\<lambda>b. b) s) =
       map (\<lambda>i. auto_gain_update (band_level d i) (auto_gain_level s ! i)) [0..<nat NUMPIXELS]"
    using band_slices [of "\<lambda>b. b" s d, OF _ len a sp] by simp
  then have "auto_gain_level (process_block (\<lambda>b. b) s) ! 0 = 10"
    "auto_gain_level (process_block (\<lambda>b. b) s) ! 1 = min_auto_gain"
    by (simp_all add: NUMPIXELS_def l0 l1 g auto_gain_update_10_first auto_gain_update_0_first)
  then show ?thesis
    using len a b0 b1 r unfolding s_def d_def by simp
qed

end
